theory Spec2Isabelle
  imports Main
begin

section \<open>Documents and character classes\<close>

text \<open>
  Both scripts read one file into the Python string \<open>content\<close>, pass it through
  three calls of \<open>re.sub\<close> and write it back. A document is modelled as a
  \<open>string\<close>; a \<open>char\<close> stands for one code point below 256, and the classes
  \<open>\d\<close>, \<open>\s\<close> and \<open>\w\<close> are the ones Python's \<open>re\<close> module uses
  for \<open>str\<close> patterns (Unicode classes), restricted to these code points:
  \<open>\d\<close> is a decimal digit (only \<open>0\<close> to \<open>9\<close> below 256); \<open>\s\<close> is what
  \<open>str.isspace\<close> accepts (tab to carriage return, the separators 28 to 31, the
  space, NEL 133 and the no-break space 160); \<open>\w\<close> is what \<open>str.isalnum\<close>
  accepts (the ASCII letters and digits, and in Latin-1 the letters 170, 181, 186,
  192 to 214, 216 to 246, 248 to 255, the superscript digits 178, 179, 185 and the
  fractions 188 to 190) and the underscore.
\<close>

type_synonym document = string

definition code :: "char \<Rightarrow> nat" where
  "code c = of_char c"

definition is_digit :: "char \<Rightarrow> bool" where
  "is_digit c = (48 \<le> code c \<and> code c \<le> 57)"

definition is_space :: "char \<Rightarrow> bool" where
  "is_space c =
     ((9 \<le> code c \<and> code c \<le> 13) \<or> (28 \<le> code c \<and> code c \<le> 32)
      \<or> code c = 133 \<or> code c = 160)"

definition is_alnum :: "char \<Rightarrow> bool" where
  "is_alnum c =
     ((48 \<le> code c \<and> code c \<le> 57) \<or> (65 \<le> code c \<and> code c \<le> 90)
      \<or> (97 \<le> code c \<and> code c \<le> 122)
      \<or> code c = 170 \<or> code c = 178 \<or> code c = 179 \<or> code c = 181
      \<or> code c = 185 \<or> code c = 186 \<or> (188 \<le> code c \<and> code c \<le> 190)
      \<or> (192 \<le> code c \<and> code c \<le> 214) \<or> (216 \<le> code c \<and> code c \<le> 246)
      \<or> 248 \<le> code c)"

definition is_word :: "char \<Rightarrow> bool" where
  "is_word c = (is_alnum c \<or> c = CHR ''_'')"

section \<open>Regular expressions as Python's \<open>re\<close> matches them\<close>

datatype category = Digit | Space | Word

datatype setitem = Chr char | Rng char char | Cat category

datatype atom = Category category | In "setitem list" | NotIn "setitem list"

datatype regex =
    Lit string
  | Atom atom
  | Seq regex regex
  | Opt regex
  | Star regex
  | Group nat regex

definition Plus :: "regex \<Rightarrow> regex" where
  "Plus r = Seq r (Star r)"

fun category_ok :: "category \<Rightarrow> char \<Rightarrow> bool" where
  "category_ok Digit c = is_digit c"
| "category_ok Space c = is_space c"
| "category_ok Word c = is_word c"

fun setitem_ok :: "setitem \<Rightarrow> char \<Rightarrow> bool" where
  "setitem_ok (Chr d) c = (c = d)"
| "setitem_ok (Rng lo hi) c = (code lo \<le> code c \<and> code c \<le> code hi)"
| "setitem_ok (Cat k) c = category_ok k c"

fun atom_ok :: "atom \<Rightarrow> char \<Rightarrow> bool" where
  "atom_ok (Category k) c = category_ok k c"
| "atom_ok (In items) c = list_ex (\<lambda>i. setitem_ok i c) items"
| "atom_ok (NotIn items) c = (\<not> list_ex (\<lambda>i. setitem_ok i c) items)"

type_synonym groups = "nat \<rightharpoonup> string"

text \<open>
  \<open>bt r g s\<close> lists, in the order in which the backtracking matcher tries them, the
  ways \<open>r\<close> can match a prefix of \<open>s\<close>: each entry is the unread rest of \<open>s\<close> with
  the groups captured so far. Quantifiers are greedy: the longer alternative comes first.
  A round of a starred expression that reads nothing ends the repetition (the guard on
  the lengths), which also makes the recursion end. \<open>x+\<close> is \<open>x\<close> followed by
  \<open>x*\<close>. A group records the text its expression has read.
\<close>

fun bt :: "regex \<Rightarrow> groups \<Rightarrow> string \<Rightarrow> (string \<times> groups) list" where
  "bt (Lit l) g s = (if take (length l) s = l then [(drop (length l) s, g)] else [])"
| "bt (Atom a) g s = (case s of [] \<Rightarrow> [] | c # cs \<Rightarrow> if atom_ok a c then [(cs, g)] else [])"
| "bt (Seq a b) g s = concat (map (\<lambda>(s', g'). bt b g' s') (bt a g s))"
| "bt (Opt r) g s = bt r g s @ [(s, g)]"
| "bt (Star r) g s =
     concat (map (\<lambda>(s', g'). if length s' < length s then bt (Star r) g' s' else [])
                 (bt r g s)) @ [(s, g)]"
| "bt (Group n r) g s =
     map (\<lambda>(s', g'). (s', g'(n \<mapsto> take (length s - length s') s))) (bt r g s)"

definition re_match :: "regex \<Rightarrow> bool \<Rightarrow> string \<Rightarrow> (string \<times> groups) option" where
  "re_match p must_advance s =
     (case filter (\<lambda>(s', g). \<not> must_advance \<or> length s' < length s) (bt p Map.empty s) of
        [] \<Rightarrow> None
      | x # _ \<Rightarrow> Some x)"

section \<open>Replacements and \<open>re.sub\<close>\<close>

datatype titem = TLit string | TRef nat

datatype repl = Template "titem list" | Func "string \<Rightarrow> string"

fun titem_text :: "groups \<Rightarrow> titem \<Rightarrow> string" where
  "titem_text g (TLit l) = l"
| "titem_text g (TRef n) = (case g n of None \<Rightarrow> [] | Some t \<Rightarrow> t)"

fun expand :: "repl \<Rightarrow> string \<Rightarrow> groups \<Rightarrow> string" where
  "expand (Template items) m g = concat (map (titem_text g) items)"
| "expand (Func f) m g = f m"

text \<open>
  \<open>re.sub\<close> walks the document from left to right. At each position it takes the
  first match the backtracking matcher finds there, writes the replacement and goes on
  behind the match; where nothing matches it copies one character. After an empty match
  the next match at the same position must be non-empty (Python 3.7 and later).
\<close>

function re_sub_from :: "regex \<Rightarrow> repl \<Rightarrow> bool \<Rightarrow> string \<Rightarrow> string" where
  "re_sub_from p r must_advance s =
     (case re_match p must_advance s of
        None \<Rightarrow> (case s of [] \<Rightarrow> [] | c # cs \<Rightarrow> c # re_sub_from p r False cs)
      | Some (s', g) \<Rightarrow>
          expand r (take (length s - length s') s) g @
          (if length s' < length s then re_sub_from p r False s'
           else re_sub_from p r True s))"
  by pat_completeness auto

lemma re_match_advances:
  "re_match p True s = Some (s', g) \<Longrightarrow> length s' < length s"
proof -
  assume a: "re_match p True s = Some (s', g)"
  let ?xs = "filter (\<lambda>(s', g). \<not> True \<or> length s' < length s) (bt p Map.empty s)"
  from a obtain ys where "?xs = (s', g) # ys"
    by (auto simp: re_match_def split: list.splits)
  then have "(s', g) \<in> set ?xs" by simp
  then show ?thesis by auto
qed

termination re_sub_from
proof (relation "measure (\<lambda>(p, r, adv, s). 2 * length s + (if adv then 0 else 1))", goal_cases)
  case 1 show ?case by simp
next
  case (2 p r adv s c cs) then show ?case by simp
next
  case (3 p r adv s x s' g) then show ?case by simp
next
  case (4 p r adv s x s' g)
  then have "\<not> adv" using re_match_advances[of p s s' g] by (cases adv) auto
  then show ?case by simp
qed

definition re_sub :: "regex \<Rightarrow> repl \<Rightarrow> string \<Rightarrow> string" where
  "re_sub p r s = re_sub_from p r False s"

text \<open>\<open>re.search(p, s) is not None\<close>: the pattern matches at some position of \<open>s\<close>.\<close>

definition re_search :: "regex \<Rightarrow> string \<Rightarrow> bool" where
  "re_search p s = list_ex (\<lambda>i. re_match p False (drop i s) \<noteq> None) [0..<Suc (length s)]"

text \<open>\<open>str.split(sep)\<close> for a separator of one character.\<close>

fun str_split :: "char \<Rightarrow> string \<Rightarrow> string list" where
  "str_split sep [] = [[]]"
| "str_split sep (c # cs) =
     (if c = sep then [] # str_split sep cs
      else (case str_split sep cs of [] \<Rightarrow> [[c]] | p # ps \<Rightarrow> (c # p) # ps))"

section \<open>The script \<open>fix_comparison_tests.py\<close>\<close>

definition seqs :: "regex list \<Rightarrow> regex" where
  "seqs rs = foldr Seq rs (Lit [])"

text \<open>\<^verbatim>\<open>(cacheMisses: \d+,)\s*\n\s*cacheMisses: \d+,\<close>\<close>

definition cacheMisses_pattern :: regex where
  "cacheMisses_pattern =
     seqs [Group 1 (seqs [Lit ''cacheMisses: '', Plus (Atom (Category Digit)), Lit '','']),
           Star (Atom (Category Space)), Lit ''\<newline>'', Star (Atom (Category Space)),
           Lit ''cacheMisses: '', Plus (Atom (Category Digit)), Lit '','']"

text \<open>\<^verbatim>\<open>(unitBreakdown: \{[^}]+\}),?\s*\n\s*unitBreakdown: \{[^}]+\}\<close>\<close>

definition unitBreakdown_pattern :: regex where
  "unitBreakdown_pattern =
     seqs [Group 1 (seqs [Lit ''unitBreakdown: {'', Plus (Atom (NotIn [Chr CHR ''}''])), Lit ''}'']),
           Opt (Lit '',''),
           Star (Atom (Category Space)), Lit ''\<newline>'', Star (Atom (Category Space)),
           Lit ''unitBreakdown: {'', Plus (Atom (NotIn [Chr CHR ''}''])), Lit ''}'']"

text \<open>\<^verbatim>\<open>},\s*}\<close>\<close>

definition brace_comma_pattern :: regex where
  "brace_comma_pattern = seqs [Lit ''},'', Star (Atom (Category Space)), Lit ''}'']"

definition remove_duplicate_cacheMisses :: "document \<Rightarrow> document" where
  "remove_duplicate_cacheMisses content =
     re_sub cacheMisses_pattern (Template [TRef 1]) content"

definition remove_duplicate_unitBreakdown :: "document \<Rightarrow> document" where
  "remove_duplicate_unitBreakdown content =
     re_sub unitBreakdown_pattern (Template [TRef 1]) content"

definition fix_remaining_syntax :: "document \<Rightarrow> document" where
  "fix_remaining_syntax content =
     re_sub brace_comma_pattern (Template [TLit ''}\<newline>      }'']) content"

text \<open>The three substitutions of the script, in its order.\<close>

definition fix_comparison_tests_rules :: "document \<Rightarrow> document" where
  "fix_comparison_tests_rules content =
     fix_remaining_syntax (remove_duplicate_unitBreakdown (remove_duplicate_cacheMisses content))"

section \<open>The script \<open>fix_cache_stats.py\<close>\<close>

definition complete_cache_stats :: string where
  "complete_cache_stats =
     ''{\<newline>'' @
     ''        hitRatio: 0.7,\<newline>'' @
     ''        size: 50,\<newline>'' @
     ''        maxSize: 100,\<newline>'' @
     ''        hits: 70,\<newline>'' @
     ''        misses: 30,\<newline>'' @
     ''        sets: 50,\<newline>'' @
     ''        evictions: 5,\<newline>'' @
     ''        hitRate: 0.7,\<newline>'' @
     ''        averageAccessTime: 0.002,\<newline>'' @
     ''        efficiency: 0.75\<newline>'' @
     ''      }''"

text \<open>\<^verbatim>\<open>const \w+: CacheStats = \{[^}]+\};\<close>\<close>

definition const_CacheStats_pattern :: regex where
  "const_CacheStats_pattern =
     seqs [Lit ''const '', Plus (Atom (Category Word)), Lit '': CacheStats = {'',
           Plus (Atom (NotIn [Chr CHR ''}''])), Lit ''};'']"

text \<open>\<^verbatim>\<open>(\w+: CacheStats = )\{[^}]+\}\<close>\<close>

definition inline_CacheStats_pattern :: regex where
  "inline_CacheStats_pattern =
     seqs [Group 1 (seqs [Plus (Atom (Category Word)), Lit '': CacheStats = '']),
           Lit ''{'', Plus (Atom (NotIn [Chr CHR ''}''])), Lit ''}'']"

text \<open>\<^verbatim>\<open>frequency: [0-9.]+,\s*\n\<close>\<close>

definition frequency_pattern :: regex where
  "frequency_pattern =
     seqs [Lit ''frequency: '', Plus (Atom (In [Rng CHR ''0'' CHR ''9'', Chr CHR ''.''])),
           Lit '','', Star (Atom (Category Space)), Lit ''\<newline>'']"

text \<open>\<^verbatim>\<open>lambda m: m.group(0).split('=')[0] + '= ' + complete_cache_stats + ';'\<close>\<close>

definition const_CacheStats_repl :: "string \<Rightarrow> string" where
  "const_CacheStats_repl m = hd (str_split CHR ''='' m) @ ''= '' @ complete_cache_stats @ '';''"

definition replace_CacheStats_objects :: "document \<Rightarrow> document" where
  "replace_CacheStats_objects content =
     re_sub const_CacheStats_pattern (Func const_CacheStats_repl) content"

definition fix_inline_CacheStats_objects :: "document \<Rightarrow> document" where
  "fix_inline_CacheStats_objects content =
     re_sub inline_CacheStats_pattern (Template [TRef 1, TLit complete_cache_stats]) content"

definition remove_frequency :: "document \<Rightarrow> document" where
  "remove_frequency content = re_sub frequency_pattern (Template []) content"

definition fix_cache_stats_rules :: "document \<Rightarrow> document" where
  "fix_cache_stats_rules content =
     remove_frequency (fix_inline_CacheStats_objects (replace_CacheStats_objects content))"

section \<open>The scripts as programs: reading and writing the file\<close>

text \<open>
  Each script opens one hard-coded path for reading, reads all of it, applies its
  substitutions, opens the same path for writing, writes the result and prints a line.
  Nothing is caught: an error of \<open>open\<close> ends the run. The world the scripts run in
  is the file system (for each path the file's text and whether this process may read
  and write it) and what has been printed. Opening for reading in text mode translates
  the line ends \<open>\r\n\<close> and \<open>\r\<close> to \<open>\n\<close>; opening for writing fails before
  anything is truncated when the file may not be written.
\<close>

datatype os_error = FileNotFoundError | PermissionError

record text_file =
  data :: string
  readable :: bool
  writable :: bool

record world =
  files :: "string \<rightharpoonup> text_file"
  stdout :: "string list"

datatype outcome = Finished world | Raised os_error world

fun universal_newlines :: "string \<Rightarrow> string" where
  "universal_newlines [] = []"
| "universal_newlines [c] = (if c = CHR 0x0D then [CHR ''\<newline>''] else [c])"
| "universal_newlines (c # d # s) =
     (if c = CHR 0x0D \<and> d = CHR ''\<newline>'' then CHR ''\<newline>'' # universal_newlines s
      else if c = CHR 0x0D then CHR ''\<newline>'' # universal_newlines (d # s)
      else c # universal_newlines (d # s))"

definition read_text :: "string \<Rightarrow> world \<Rightarrow> os_error + string" where
  "read_text path w =
     (case files w path of
        None \<Rightarrow> Inl FileNotFoundError
      | Some f \<Rightarrow> if readable f then Inr (universal_newlines (data f)) else Inl PermissionError)"

definition write_text :: "string \<Rightarrow> string \<Rightarrow> world \<Rightarrow> os_error + world" where
  "write_text path s w =
     (case files w path of
        None \<Rightarrow> Inr (w\<lparr>files := (files w)(path \<mapsto> \<lparr>data = s, readable = True, writable = True\<rparr>)\<rparr>)
      | Some f \<Rightarrow>
          if writable f then Inr (w\<lparr>files := (files w)(path \<mapsto> f\<lparr>data := s\<rparr>)\<rparr>)
          else Inl PermissionError)"

definition print :: "string \<Rightarrow> world \<Rightarrow> world" where
  "print line w = w\<lparr>stdout := stdout w @ [line]\<rparr>"

definition test_file :: string where
  "test_file = ''/Users/jdavidoa91/Documents/GitHub/atemporal/src/__tests__/core/comparison/comparison-optimizer-coverage.test.ts''"

definition fix_comparison_tests :: "world \<Rightarrow> outcome" where
  "fix_comparison_tests w =
     (case read_text test_file w of
        Inl e \<Rightarrow> Raised e w
      | Inr content \<Rightarrow>
          (case write_text test_file (fix_comparison_tests_rules content) w of
             Inl e \<Rightarrow> Raised e w
           | Inr w' \<Rightarrow>
               Finished (print ''Fixed duplicate properties in comparison optimizer test file'' w')))"

definition fix_cache_stats :: "world \<Rightarrow> outcome" where
  "fix_cache_stats w =
     (case read_text test_file w of
        Inl e \<Rightarrow> Raised e w
      | Inr content \<Rightarrow>
          (case write_text test_file (fix_cache_stats_rules content) w of
             Inl e \<Rightarrow> Raised e w
           | Inr w' \<Rightarrow>
               Finished (print ''Fixed CacheStats objects and removed frequency properties'' w')))"

section \<open>Documents free of the patterns\<close>

text \<open>
  What a pattern matches, said without the matcher: \<open>lang r\<close> is the set of texts
  the regular expression \<open>r\<close> describes, and \<open>r\<close> occurs in a document when some
  piece of the document is in that set. A document is free of the target patterns when
  none of the six regular expressions of the two scripts (the five rules; rule 4 has two
  expressions) occurs in it.
\<close>

inductive_set star :: "string set \<Rightarrow> string set" for L :: "string set" where
  star_Nil: "[] \<in> star L"
| star_step: "u \<in> L \<Longrightarrow> v \<in> star L \<Longrightarrow> u @ v \<in> star L"

fun lang :: "regex \<Rightarrow> string set" where
  "lang (Lit l) = {l}"
| "lang (Atom a) = {[c] | c. atom_ok a c}"
| "lang (Seq a b) = {u @ v | u v. u \<in> lang a \<and> v \<in> lang b}"
| "lang (Opt r) = insert [] (lang r)"
| "lang (Star r) = star (lang r)"
| "lang (Group n r) = lang r"

definition occurs :: "regex \<Rightarrow> string \<Rightarrow> bool" where
  "occurs p x = (\<exists>u m v. x = u @ m @ v \<and> m \<in> lang p)"

definition free_of_target_patterns :: "document \<Rightarrow> bool" where
  "free_of_target_patterns x =
     (\<not> occurs cacheMisses_pattern x \<and> \<not> occurs unitBreakdown_pattern x
      \<and> \<not> occurs brace_comma_pattern x \<and> \<not> occurs const_CacheStats_pattern x
      \<and> \<not> occurs inline_CacheStats_pattern x \<and> \<not> occurs frequency_pattern x)"

section \<open>Leading blank lines\<close>

text \<open>
  \<open>drop_blank_lines s\<close> removes the blank lines \<open>s\<close> starts with: a leading
  whitespace character goes as long as it is a newline or a newline follows in the run
  of whitespace that starts the text. \<open>blank_rests s\<close> lists what is left of \<open>s\<close>
  behind each newline of that run, the last newline first.
\<close>

fun drop_blank_lines :: "string \<Rightarrow> string" where
  "drop_blank_lines [] = []"
| "drop_blank_lines (c # cs) =
     (if is_space c \<and> (c = CHR ''\<newline>'' \<or> CHR ''\<newline>'' \<in> set (takeWhile is_space cs))
      then drop_blank_lines cs else c # cs)"

fun blank_rests :: "string \<Rightarrow> string list" where
  "blank_rests [] = []"
| "blank_rests (c # cs) =
     (if is_space c then blank_rests cs @ (if c = CHR ''\<newline>'' then [cs] else []) else [])"

section \<open>Evaluating the matcher\<close>

lemma bt_Lit_Nil: "bt (Lit []) g s = [(s, g)]"
  by simp

lemma bt_Lit_Cons_Cons: "bt (Lit (c # l)) g (d # s) = (if c = d then bt (Lit l) g s else [])"
  by auto

lemma bt_Lit_Cons_Nil: "bt (Lit (c # l)) g [] = []"
  by simp

lemma concat_map_concat_map:
  "concat (map f (concat (map h xs))) = concat (map (\<lambda>x. concat (map f (h x))) xs)"
  by (induction xs) auto

lemma bt_Seq_assoc: "bt (Seq (Seq a b) c) g s = bt (Seq a (Seq b c)) g s"
  by (simp add: concat_map_concat_map split_def)

lemma bt_Seq_Lit_Nil: "bt (Seq (Lit []) r) g s = bt r g s"
  by simp

lemma bt_Seq_Lit_Cons_Cons:
  "bt (Seq (Lit (c # l)) r) g (d # s) = (if c = d then bt (Seq (Lit l) r) g s else [])"
  by auto

lemma bt_Seq_Lit_Cons_Nil: "bt (Seq (Lit (c # l)) r) g [] = []"
  by simp

lemma bt_Seq_Atom_Cons:
  "bt (Seq (Atom a) r) g (c # s) = (if atom_ok a c then bt r g s else [])"
  by simp

lemma bt_Seq_Atom_Nil: "bt (Seq (Atom a) r) g [] = []"
  by simp

lemma bt_Seq_Star_Atom_Cons:
  "bt (Seq (Star (Atom a)) k) g (c # cs) =
     (if atom_ok a c then bt (Seq (Star (Atom a)) k) g cs else []) @ bt k g (c # cs)"
  by simp

lemma bt_Seq_Star_Atom_Nil: "bt (Seq (Star (Atom a)) k) g [] = bt k g []"
  by simp

lemma bt_Seq_Opt: "bt (Seq (Opt r) k) g s = bt (Seq r k) g s @ bt k g s"
  by simp

lemma bt_Seq_Group:
  "bt (Seq (Group n r) k) g s =
     concat (map (\<lambda>(s', g'). bt k (g'(n \<mapsto> take (length s - length s') s)) s') (bt r g s))"
  by (simp add: o_def split_def)

lemmas bt_eval = bt_Lit_Nil bt_Lit_Cons_Cons bt_Lit_Cons_Nil bt_Seq_assoc bt_Seq_Lit_Nil
  bt_Seq_Lit_Cons_Cons bt_Seq_Lit_Cons_Nil bt_Seq_Atom_Cons bt_Seq_Atom_Nil
  bt_Seq_Star_Atom_Cons bt_Seq_Star_Atom_Nil bt_Seq_Opt bt_Seq_Group

lemmas cls_eval = is_digit_def is_space_def is_alnum_def is_word_def code_def

declare bt.simps [simp del]

declare re_sub_from.simps [simp del]

lemma re_match_False:
  "re_match p False s = (case bt p Map.empty s of [] \<Rightarrow> None | x # _ \<Rightarrow> Some x)"
  by (simp add: re_match_def)

lemma re_sub_from_Cons_None:
  "re_match p False (c # cs) = None \<Longrightarrow>
   re_sub_from p r False (c # cs) = c # re_sub_from p r False cs"
  by (simp add: re_sub_from.simps[of p r False "c # cs"])

lemma re_sub_from_Nil_None:
  "re_match p False [] = None \<Longrightarrow> re_sub_from p r False [] = []"
  by (simp add: re_sub_from.simps[of p r False "[]"])

lemma re_sub_from_Some:
  "re_match p False s = Some (s', g) \<Longrightarrow> length s' < length s \<Longrightarrow>
   re_sub_from p r False s =
     expand r (take (length s - length s') s) g @ re_sub_from p r False s'"
  by (simp add: re_sub_from.simps[of p r False s])

lemmas sub_eval = re_sub_from_Cons_None re_sub_from_Nil_None re_sub_from_Some re_match_False

text \<open>
  A greedy run of one-character atoms in front of a literal whose first character is not
  in the class: the run takes every character of the class, no shorter alternative can
  reach the literal.
\<close>

lemma bt_Star_then_Lit:
  "\<not> atom_ok a c \<Longrightarrow>
   bt (Seq (Star (Atom a)) (Seq (Lit (c # l)) r)) g s =
   bt (Seq (Lit (c # l)) r) g (dropWhile (atom_ok a) s)"
proof (induction s)
  case Nil
  show ?case by (simp add: bt_eval)
next
  case (Cons d ds)
  then show ?case by (auto simp: bt_eval)
qed

lemma bt_Plus_then_Lit:
  "\<not> atom_ok a c \<Longrightarrow>
   bt (Seq (Atom a) (Seq (Star (Atom a)) (Seq (Lit (c # l)) r))) g s =
   (case s of [] \<Rightarrow> []
    | d # ds \<Rightarrow> if atom_ok a d then bt (Seq (Lit (c # l)) r) g (dropWhile (atom_ok a) ds) else [])"
  by (cases s) (simp_all add: bt_eval bt_Star_then_Lit)

lemma dropWhile_all_append:
  "list_all P xs \<Longrightarrow> dropWhile P (xs @ ys) = dropWhile P ys"
  by (induction xs) auto

lemma str_split_not_Nil: "str_split sep s \<noteq> []"
  by (induction s) (auto split: list.splits)

lemma hd_str_split: "hd (str_split sep s) = takeWhile (\<lambda>c. c \<noteq> sep) s"
  using str_split_not_Nil by (induction s) (auto split: list.splits)

lemma concat_replicate_snoc: "concat (replicate n xs) @ xs = concat (replicate (Suc n) xs)"
  by (induction n) auto

lemma bt_blank_then_Lit:
  assumes "\<not> is_space c"
  shows "bt (Seq (Star (Atom (Category Space)))
           (Seq (Lit ''\<newline>'') (Seq (Star (Atom (Category Space))) (Seq (Lit (c # l)) r)))) g s =
         concat (replicate (count_list (takeWhile is_space s) CHR ''\<newline>'')
                   (bt (Seq (Lit (c # l)) r) g (dropWhile is_space s)))"
proof (induction s)
  case Nil
  show ?case by (simp add: bt_eval)
next
  case (Cons d ds)
  have nc: "\<not> atom_ok (Category Space) c" using assms by simp
  have sp: "atom_ok (Category Space) = is_space" by (rule ext) simp
  show ?case
  proof (cases "is_space d")
    case True
    show ?thesis
      using True Cons.IH
      by (simp add: bt_eval bt_Star_then_Lit[OF nc] sp concat_replicate_snoc del: replicate_Suc replicate.simps)
  next
    case False
    then have "d \<noteq> CHR ''\<newline>''" by (auto simp: cls_eval)
    then show ?thesis using False by (simp add: bt_eval)
  qed
qed

lemma first_concat_replicate:
  "0 < n \<Longrightarrow> (case concat (replicate n xs) of [] \<Rightarrow> None | x # _ \<Rightarrow> Some x)
     = (case xs of [] \<Rightarrow> None | x # _ \<Rightarrow> Some x)"
  by (cases n; cases xs) auto

lemma count_list_pos: "x \<in> set xs \<Longrightarrow> 0 < count_list xs x"
  by (induction xs) auto

lemma takeWhile_all_append:
  "list_all P xs \<Longrightarrow> takeWhile P (xs @ ys) = xs @ takeWhile P ys"
  by (induction xs) auto

lemma take_length_diff: "take (length (xs @ ys) - length ys) (xs @ ys) = xs"
  by simp

lemma bt_Seq_Plus: "bt (Seq (Plus r) k) g s = bt (Seq r (Seq (Star r) k)) g s"
  by (simp only: Plus_def bt_Seq_assoc)

lemma bt_unitBreakdown_block:
  assumes "b \<noteq> []" "CHR ''}'' \<notin> set b"
  shows "bt (Seq (Lit ''unitBreakdown: {'') (Seq (Plus (Atom (NotIn [Chr CHR ''}''])))
           (Seq (Lit ''}'') k))) g
           (''unitBreakdown: {'' @ b @ ''}'' @ t) = bt k g t"
proof -
  obtain x xs where b: "b = x # xs" using assms(1) by (cases b) auto
  have "list_all (atom_ok (NotIn [Chr CHR ''}''])) xs" "x \<noteq> CHR ''}''"
    using assms(2) b by (auto simp: list_all_iff)
  then show ?thesis
    by (simp add: b bt_eval bt_Seq_Plus bt_Star_then_Lit bt_Plus_then_Lit dropWhile_all_append)
qed

lemma bt_blank_unitBreakdown:
  assumes w: "list_all is_space w"
      and b: "b \<noteq> []" "CHR ''}'' \<notin> set b"
  shows "bt (Seq (Star (Atom (Category Space)))
           (Seq (Lit ''\<newline>'') (Seq (Star (Atom (Category Space)))
             (Seq (Lit ''unitBreakdown: {'') (Seq (Plus (Atom (NotIn [Chr CHR ''}''])))
               (Seq (Lit ''}'') (Lit []))))))) g
           (w @ ''unitBreakdown: {'' @ b @ ''}'' @ rest)
        = concat (replicate (count_list w CHR ''\<newline>'') [(rest, g)])"
proof -
  have notu: "\<not> is_space CHR ''u''" by (simp add: cls_eval)
  have tw: "takeWhile is_space (w @ ''unitBreakdown: {'' @ b @ ''}'' @ rest) = w"
    using w notu by (simp add: takeWhile_all_append)
  have dw: "dropWhile is_space (w @ ''unitBreakdown: {'' @ b @ ''}'' @ rest)
              = ''unitBreakdown: {'' @ b @ ''}'' @ rest"
    using w notu by (simp add: dropWhile_all_append)
  show ?thesis
    by (simp only: bt_blank_then_Lit[OF notu] tw dw bt_unitBreakdown_block[OF b] bt_Lit_Nil)
qed

lemma unitBreakdown_match:
  assumes b1: "b1 \<noteq> []" "CHR ''}'' \<notin> set b1"
      and b2: "b2 \<noteq> []" "CHR ''}'' \<notin> set b2"
      and comma: "comma = [] \<or> comma = '',''"
      and w: "list_all is_space w" "CHR ''\<newline>'' \<in> set w"
  shows "re_match unitBreakdown_pattern False
           (''unitBreakdown: {'' @ b1 @ ''}'' @ comma @ w @ ''unitBreakdown: {'' @ b2 @ ''}'' @ rest)
         = Some (rest, [1 \<mapsto> ''unitBreakdown: {'' @ b1 @ ''}''])"
proof -
  let ?tail = "comma @ w @ ''unitBreakdown: {'' @ b2 @ ''}'' @ rest"
  let ?s = "''unitBreakdown: {'' @ b1 @ ''}'' @ ?tail"
  let ?R2 = "Seq (Star (Atom (Category Space)))
           (Seq (Lit ''\<newline>'') (Seq (Star (Atom (Category Space)))
             (Seq (Lit ''unitBreakdown: {'') (Seq (Plus (Atom (NotIn [Chr CHR ''}''])))
               (Seq (Lit ''}'') (Lit []))))))"
  have n: "0 < count_list w CHR ''\<newline>''" using w(2) by (rule count_list_pos)
  obtain d ds where wd: "w = d # ds" "is_space d" using w by (cases w) auto
  then have dc: "d \<noteq> CHR '',''" by (auto simp: cls_eval)
  have grp: "take (length ?s - length ?tail) ?s = ''unitBreakdown: {'' @ b1 @ ''}''"
  proof -
    have "take (length ((''unitBreakdown: {'' @ b1 @ ''}'') @ ?tail) - length ?tail)
            ((''unitBreakdown: {'' @ b1 @ ''}'') @ ?tail) = ''unitBreakdown: {'' @ b1 @ ''}''"
      by (rule take_length_diff)
    then show ?thesis by (simp only: append_assoc)
  qed
  have tail: "bt (Seq (Opt (Lit '','')) ?R2) g ?tail
       = concat (replicate (count_list w CHR ''\<newline>'') [(rest, g)])" for g
  proof -
    have r2: "bt ?R2 g (w @ ''unitBreakdown: {'' @ b2 @ ''}'' @ rest)
       = concat (replicate (count_list w CHR ''\<newline>'') [(rest, g)])"
      by (rule bt_blank_unitBreakdown[OF w(1) b2])
    have nocomma: "bt ?R2 g ('','' @ t) = []" for t
      by (simp add: bt_eval cls_eval)
    from comma show ?thesis
    proof
      assume "comma = []"
      moreover have "bt (Seq (Lit '','') ?R2) g (w @ ''unitBreakdown: {'' @ b2 @ ''}'' @ rest) = []"
        using dc by (simp add: wd bt_eval)
      ultimately show ?thesis using r2 by (simp only: bt_Seq_Opt append_Nil)
    next
      assume c: "comma = '',''"
      have "bt (Seq (Lit '','') ?R2) g ('','' @ w @ ''unitBreakdown: {'' @ b2 @ ''}'' @ rest)
          = bt ?R2 g (w @ ''unitBreakdown: {'' @ b2 @ ''}'' @ rest)"
        by (simp add: bt_eval)
      then show ?thesis using r2 nocomma by (simp only: c bt_Seq_Opt append_Nil2)
    qed
  qed
  have "bt unitBreakdown_pattern Map.empty ?s
      = concat (replicate (count_list w CHR ''\<newline>'')
          [(rest, [1 \<mapsto> ''unitBreakdown: {'' @ b1 @ ''}''])])"
    unfolding unitBreakdown_pattern_def seqs_def foldr.simps o_def id_def
    by (simp only: bt_Seq_Group bt_unitBreakdown_block[OF b1] bt_Lit_Nil list.map concat.simps
        append_Nil2 prod.case tail grp)
  then show ?thesis
    using n by (simp only: re_match_False first_concat_replicate list.case)
qed

text \<open>What a match of a pattern looks like.\<close>

lemma re_match_in_bt:
  "re_match p False s = Some x \<Longrightarrow> x \<in> set (bt p Map.empty s)"
  by (auto simp: re_match_False split: list.splits)

lemma in_bt_Lit_Nil: "x \<in> set (bt (Lit []) g s) \<Longrightarrow> x = (s, g)"
  by (simp add: bt_eval)

lemma in_bt_Seq_Lit:
  "x \<in> set (bt (Seq (Lit l) r) g s) \<Longrightarrow> \<exists>t. s = l @ t \<and> x \<in> set (bt r g t)"
proof (induction l arbitrary: s)
  case Nil
  then show ?case by (simp add: bt_eval)
next
  case (Cons c l)
  show ?case
  proof (cases s)
    case Nil
    with Cons.prems show ?thesis by (simp add: bt_eval)
  next
    case (Cons d ds)
    with Cons.prems have "c = d" "x \<in> set (bt (Seq (Lit l) r) g ds)"
      by (auto simp: bt_eval split: if_splits)
    with Cons.IH[of ds] Cons show ?thesis by auto
  qed
qed

lemma takeWhile_list_all: "list_all P (takeWhile P xs)"
  by (induction xs) auto

lemma in_bt_Seq_Plus_Lit:
  assumes "\<not> atom_ok a c"
      and "x \<in> set (bt (Seq (Plus (Atom a)) (Seq (Lit (c # l)) r)) g s)"
  shows "\<exists>u t. u \<noteq> [] \<and> list_all (atom_ok a) u \<and> s = u @ t
           \<and> x \<in> set (bt (Seq (Lit (c # l)) r) g t)"
proof (cases s)
  case Nil
  with assms(2) show ?thesis by (simp add: bt_Seq_Plus bt_eval)
next
  case (Cons d ds)
  with assms have d: "atom_ok a d"
    and x: "x \<in> set (bt (Seq (Lit (c # l)) r) g (dropWhile (atom_ok a) ds))"
    by (auto simp: bt_Seq_Plus bt_Plus_then_Lit split: if_splits)
  have "s = (d # takeWhile (atom_ok a) ds) @ dropWhile (atom_ok a) ds"
    using Cons by simp
  moreover have "list_all (atom_ok a) (d # takeWhile (atom_ok a) ds)"
    using d by (simp add: takeWhile_list_all)
  ultimately show ?thesis using x by blast
qed

lemma in_bt_Seq_Group:
  "x \<in> set (bt (Seq (Group n r) k) g s) \<Longrightarrow>
   \<exists>s1 g1. (s1, g1) \<in> set (bt r g s)
     \<and> x \<in> set (bt k (g1(n \<mapsto> take (length s - length s1) s)) s1)"
proof -
  assume "x \<in> set (bt (Seq (Group n r) k) g s)"
  then obtain p where p: "p \<in> set (bt r g s)"
    and x: "x \<in> set ((\<lambda>(s', g'). bt k (g'(n \<mapsto> take (length s - length s') s)) s') p)"
    unfolding bt_Seq_Group set_concat set_map by blast
  obtain s1 g1 where "p = (s1, g1)" by (cases p)
  with p x show ?thesis by (intro exI[of _ s1] exI[of _ g1]) simp
qed

lemma const_CacheStats_match:
  assumes "re_match const_CacheStats_pattern False s = Some (s', g)"
  shows "\<exists>name body. name \<noteq> [] \<and> list_all is_word name \<and> body \<noteq> [] \<and> CHR ''}'' \<notin> set body
           \<and> s = ''const '' @ name @ '': CacheStats = {'' @ body @ ''};'' @ s' \<and> g = Map.empty"
proof -
  have nw: "\<not> atom_ok (Category Word) CHR '':''" by (simp add: cls_eval)
  have nb: "\<not> atom_ok (NotIn [Chr CHR ''}'']) CHR ''}''" by simp
  from assms have "(s', g) \<in> set (bt const_CacheStats_pattern Map.empty s)"
    by (rule re_match_in_bt)
  then have 0: "(s', g) \<in> set (bt (Seq (Lit ''const '') (Seq (Plus (Atom (Category Word)))
       (Seq (Lit '': CacheStats = {'') (Seq (Plus (Atom (NotIn [Chr CHR ''}''])))
         (Seq (Lit ''};'') (Lit [])))))) Map.empty s)"
    by (simp add: const_CacheStats_pattern_def seqs_def)
  from in_bt_Seq_Lit[OF 0] obtain t1 where t1: "s = ''const '' @ t1"
    and 1: "(s', g) \<in> set (bt (Seq (Plus (Atom (Category Word)))
       (Seq (Lit '': CacheStats = {'') (Seq (Plus (Atom (NotIn [Chr CHR ''}''])))
         (Seq (Lit ''};'') (Lit []))))) Map.empty t1)" by blast
  from in_bt_Seq_Plus_Lit[OF nw 1] obtain name t2 where name: "name \<noteq> []" "list_all (atom_ok (Category Word)) name"
    and t2: "t1 = name @ t2"
    and 2: "(s', g) \<in> set (bt (Seq (Lit '': CacheStats = {'') (Seq (Plus (Atom (NotIn [Chr CHR ''}''])))
         (Seq (Lit ''};'') (Lit [])))) Map.empty t2)" by blast
  from in_bt_Seq_Lit[OF 2] obtain t3 where t3: "t2 = '': CacheStats = {'' @ t3"
    and 3: "(s', g) \<in> set (bt (Seq (Plus (Atom (NotIn [Chr CHR ''}''])))
         (Seq (Lit ''};'') (Lit []))) Map.empty t3)" by blast
  from in_bt_Seq_Plus_Lit[OF nb 3] obtain body t4 where body: "body \<noteq> []" "list_all (atom_ok (NotIn [Chr CHR ''}''])) body"
    and t4: "t3 = body @ t4"
    and 4: "(s', g) \<in> set (bt (Seq (Lit ''};'') (Lit [])) Map.empty t4)" by blast
  from in_bt_Seq_Lit[OF 4] obtain t5 where t5: "t4 = ''};'' @ t5"
    and 5: "(s', g) \<in> set (bt (Lit []) Map.empty t5)" by blast
  from in_bt_Lit_Nil[OF 5] have e: "s' = t5" "g = Map.empty" by auto
  have "list_all is_word name" using name(2) by (simp add: list_all_iff)
  moreover have "CHR ''}'' \<notin> set body" using body(2) by (auto simp: list_all_iff)
  moreover have "s = ''const '' @ name @ '': CacheStats = {'' @ body @ ''};'' @ s'"
    by (simp only: t1 t2 t3 t4 t5 e)
  ultimately show ?thesis using name(1) body(1) e(2) by blast
qed

lemma inline_CacheStats_match:
  assumes "re_match inline_CacheStats_pattern False s = Some (s', g)"
  shows "\<exists>name body. name \<noteq> [] \<and> list_all is_word name \<and> body \<noteq> [] \<and> CHR ''}'' \<notin> set body
           \<and> s = name @ '': CacheStats = '' @ ''{'' @ body @ ''}'' @ s'
           \<and> g = [1 \<mapsto> name @ '': CacheStats = '']"
proof -
  have nw: "\<not> atom_ok (Category Word) CHR '':''" by (simp add: cls_eval)
  have nb: "\<not> atom_ok (NotIn [Chr CHR ''}'']) CHR ''}''" by simp
  from assms have "(s', g) \<in> set (bt inline_CacheStats_pattern Map.empty s)"
    by (rule re_match_in_bt)
  then have 0: "(s', g) \<in> set (bt (Seq (Group 1 (Seq (Plus (Atom (Category Word)))
        (Seq (Lit '': CacheStats = '') (Lit []))))
       (Seq (Lit ''{'') (Seq (Plus (Atom (NotIn [Chr CHR ''}''])))
         (Seq (Lit ''}'') (Lit []))))) Map.empty s)"
    by (simp add: inline_CacheStats_pattern_def seqs_def)
  from in_bt_Seq_Group[OF 0] obtain s1 g1 where
    i0: "(s1, g1) \<in> set (bt (Seq (Plus (Atom (Category Word)))
        (Seq (Lit '': CacheStats = '') (Lit []))) Map.empty s)"
    and r0: "(s', g) \<in> set (bt (Seq (Lit ''{'') (Seq (Plus (Atom (NotIn [Chr CHR ''}''])))
         (Seq (Lit ''}'') (Lit [])))) (g1(1 \<mapsto> take (length s - length s1) s)) s1)"
    by blast
  from in_bt_Seq_Plus_Lit[OF nw i0] obtain name t1 where
    name: "name \<noteq> []" "list_all (atom_ok (Category Word)) name"
    and t1: "s = name @ t1"
    and i1: "(s1, g1) \<in> set (bt (Seq (Lit '': CacheStats = '') (Lit [])) Map.empty t1)" by blast
  from in_bt_Seq_Lit[OF i1] obtain t2 where t2: "t1 = '': CacheStats = '' @ t2"
    and i2: "(s1, g1) \<in> set (bt (Lit []) Map.empty t2)" by blast
  from in_bt_Lit_Nil[OF i2] have e1: "s1 = t2" "g1 = Map.empty" by auto
  have s: "s = (name @ '': CacheStats = '') @ s1" by (simp only: t1 t2 e1 append_assoc)
  have grp: "take (length s - length s1) s = name @ '': CacheStats = ''"
    by (subst s, subst s) (rule take_length_diff)
  from in_bt_Seq_Lit[OF r0] obtain t3 where t3: "s1 = ''{'' @ t3"
    and r1: "(s', g) \<in> set (bt (Seq (Plus (Atom (NotIn [Chr CHR ''}''])))
         (Seq (Lit ''}'') (Lit []))) (g1(1 \<mapsto> take (length s - length s1) s)) t3)" by blast
  from in_bt_Seq_Plus_Lit[OF nb r1] obtain body t4 where
    body: "body \<noteq> []" "list_all (atom_ok (NotIn [Chr CHR ''}''])) body"
    and t4: "t3 = body @ t4"
    and r2: "(s', g) \<in> set (bt (Seq (Lit ''}'') (Lit [])) (g1(1 \<mapsto> take (length s - length s1) s)) t4)"
    by blast
  from in_bt_Seq_Lit[OF r2] obtain t5 where t5: "t4 = ''}'' @ t5"
    and r3: "(s', g) \<in> set (bt (Lit []) (g1(1 \<mapsto> take (length s - length s1) s)) t5)" by blast
  from in_bt_Lit_Nil[OF r3] have e: "s' = t5" "g = g1(1 \<mapsto> take (length s - length s1) s)"
    by auto
  have "list_all is_word name" using name(2) by (simp add: list_all_iff)
  moreover have "CHR ''}'' \<notin> set body" using body(2) by (auto simp: list_all_iff)
  moreover have "s = name @ '': CacheStats = '' @ ''{'' @ body @ ''}'' @ s'"
    by (simp only: s t3 t4 t5 e append_assoc)
  moreover have "g = [1 \<mapsto> name @ '': CacheStats = '']"
    by (simp only: e(2) grp e1(2))
  ultimately show ?thesis using name(1) body(1) by blast
qed

lemma takeWhile_stop:
  "list_all P xs \<Longrightarrow> \<not> P y \<Longrightarrow> takeWhile P (xs @ y # ys) = xs"
  by (induction xs) auto

lemma is_word_not_eq: "is_word c \<Longrightarrow> c \<noteq> CHR ''=''"
  by (auto simp: cls_eval)

lemma bt_blank_line:
  "bt (Seq (Star (Atom (Category Space))) (Seq (Lit ''\<newline>'') (Lit []))) g s
   = map (\<lambda>t. (t, g)) (blank_rests s)"
proof (induction s)
  case Nil
  show ?case by (simp add: bt_eval)
next
  case (Cons c cs)
  have "c = CHR ''\<newline>'' \<Longrightarrow> is_space c" by (simp add: cls_eval)
  with Cons show ?case by (auto simp: bt_eval)
qed

lemma blank_rests_Nil_iff:
  "blank_rests s = [] \<longleftrightarrow> CHR ''\<newline>'' \<notin> set (takeWhile is_space s)"
  by (induction s) auto

lemma hd_blank_rests:
  "hd (blank_rests s @ [s]) = drop_blank_lines s"
proof (induction s)
  case Nil
  show ?case by simp
next
  case (Cons c cs)
  have nl: "c = CHR ''\<newline>'' \<Longrightarrow> is_space c" by (simp add: cls_eval)
  show ?case
  proof (cases "blank_rests cs = []")
    case True
    then have nn: "CHR ''\<newline>'' \<notin> set (takeWhile is_space cs)"
      by (simp add: blank_rests_Nil_iff)
    have "drop_blank_lines cs = cs" using Cons True by simp
    with nn nl show ?thesis by (auto simp: True)
  next
    case False
    then have "CHR ''\<newline>'' \<in> set (takeWhile is_space cs)" by (simp add: blank_rests_Nil_iff)
    with Cons False nl show ?thesis by (auto simp: hd_append)
  qed
qed

lemma length_drop_blank_lines: "length (drop_blank_lines s) \<le> length s"
  by (induction s) auto

text \<open>Where a match of each pattern can start.\<close>

lemma cacheMisses_first_char:
  "d \<noteq> CHR ''c'' \<Longrightarrow> re_match cacheMisses_pattern False (d # s) = None"
  by (simp add: cacheMisses_pattern_def seqs_def Plus_def re_match_False bt_eval)

lemma cacheMisses_Nil: "re_match cacheMisses_pattern False [] = None"
  by (simp add: cacheMisses_pattern_def seqs_def Plus_def re_match_False bt_eval)

lemma unitBreakdown_first_char:
  "d \<noteq> CHR ''u'' \<Longrightarrow> re_match unitBreakdown_pattern False (d # s) = None"
  by (simp add: unitBreakdown_pattern_def seqs_def Plus_def re_match_False bt_eval)

lemma unitBreakdown_Nil: "re_match unitBreakdown_pattern False [] = None"
  by (simp add: unitBreakdown_pattern_def seqs_def Plus_def re_match_False bt_eval)

lemma brace_comma_first_char:
  "d \<noteq> CHR ''}'' \<Longrightarrow> re_match brace_comma_pattern False (d # s) = None"
  by (simp add: brace_comma_pattern_def seqs_def Plus_def re_match_False bt_eval)

lemma brace_comma_Nil: "re_match brace_comma_pattern False [] = None"
  by (simp add: brace_comma_pattern_def seqs_def Plus_def re_match_False bt_eval)

lemma const_CacheStats_first_char:
  "d \<noteq> CHR ''c'' \<Longrightarrow> re_match const_CacheStats_pattern False (d # s) = None"
  by (simp add: const_CacheStats_pattern_def seqs_def Plus_def re_match_False bt_eval)

lemma const_CacheStats_Nil: "re_match const_CacheStats_pattern False [] = None"
  by (simp add: const_CacheStats_pattern_def seqs_def Plus_def re_match_False bt_eval)

lemma inline_CacheStats_first_char:
  "\<not> is_word d \<Longrightarrow> re_match inline_CacheStats_pattern False (d # s) = None"
  by (simp add: inline_CacheStats_pattern_def seqs_def Plus_def re_match_False bt_eval)

lemma inline_CacheStats_Nil: "re_match inline_CacheStats_pattern False [] = None"
  by (simp add: inline_CacheStats_pattern_def seqs_def Plus_def re_match_False bt_eval)

lemma frequency_first_char:
  "d \<noteq> CHR ''f'' \<Longrightarrow> re_match frequency_pattern False (d # s) = None"
  by (simp add: frequency_pattern_def seqs_def Plus_def re_match_False bt_eval)

lemma frequency_Nil: "re_match frequency_pattern False [] = None"
  by (simp add: frequency_pattern_def seqs_def Plus_def re_match_False bt_eval)

section \<open>Where nothing matches, nothing changes\<close>

lemma re_sub_from_unchanged:
  "(\<And>i. i \<le> length s \<Longrightarrow> re_match p False (drop i s) = None) \<Longrightarrow>
   re_sub_from p r False s = s"
proof (induction s)
  case Nil
  from Nil(1)[of 0] show ?case by (simp add: re_sub_from_Nil_None)
next
  case (Cons c cs)
  have "re_match p False (c # cs) = None" using Cons.prems[of 0] by simp
  moreover have "re_sub_from p r False cs = cs"
  proof (rule Cons.IH)
    fix i assume "i \<le> length cs"
    then show "re_match p False (drop i cs) = None" using Cons.prems[of "Suc i"] by simp
  qed
  ultimately show ?case by (simp add: re_sub_from_Cons_None)
qed

lemma re_search_iff:
  "re_search p s \<longleftrightarrow> (\<exists>i\<le>length s. re_match p False (drop i s) \<noteq> None)"
proof -
  have "set [0..<Suc (length s)] = {i. i \<le> length s}" by auto
  then show ?thesis unfolding re_search_def list_ex_iff by blast
qed

text \<open>
  The matcher finds exactly the texts of the language: every entry of \<open>bt\<close> is
  what is left behind a text of \<open>lang r\<close>, and behind every such text at the start
  of the input there is an entry. So \<open>re.search\<close> succeeds exactly where the pattern
  occurs.
\<close>

lemma bt_sound:
  "(s', g') \<in> set (bt r g s) \<Longrightarrow> \<exists>m \<in> lang r. s = m @ s'"
proof (induction r g s arbitrary: s' g' rule: bt.induct)
  case (1 l g s)
  then have "take (length l) s = l" "s' = drop (length l) s"
    by (auto simp: bt.simps(1) split: if_splits)
  then have "s = l @ s'" by (metis append_take_drop_id)
  then show ?case by simp
next
  case (2 a g s)
  then show ?case by (cases s) (auto simp: bt.simps(2) split: if_splits)
next
  case (3 a b g s)
  from 3(3) obtain s1 g1 where 1: "(s1, g1) \<in> set (bt a g s)"
    and 2: "(s', g') \<in> set (bt b g1 s1)" by (auto simp: bt.simps(3))
  from 3(1)[OF 1] obtain u where u: "u \<in> lang a" "s = u @ s1" by blast
  from 3(2)[OF 1 refl 2] obtain v where v: "v \<in> lang b" "s1 = v @ s'" by blast
  have "u @ v \<in> lang (Seq a b)" using u v by auto
  moreover have "s = (u @ v) @ s'" using u v by simp
  ultimately show ?case by blast
next
  case (4 r g s)
  from 4(2) have "(s', g') \<in> set (bt r g s) \<or> (s', g') = (s, g)" by (auto simp: bt.simps(4))
  then show ?case
  proof
    assume "(s', g') \<in> set (bt r g s)"
    from 4(1)[OF this] show ?thesis by auto
  next
    assume "(s', g') = (s, g)"
    then show ?thesis by auto
  qed
next
  case (5 r g s)
  from 5(3) consider (stop) "(s', g') = (s, g)"
    | (go) s1 g1 where "(s1, g1) \<in> set (bt r g s)" "length s1 < length s"
        "(s', g') \<in> set (bt (Star r) g1 s1)"
    by (auto simp: bt.simps(5)[of r g s] split: if_splits)
  then show ?case
  proof cases
    case stop
    then show ?thesis by (auto intro: star_Nil)
  next
    case go
    from 5(1)[OF go(1)] obtain u where u: "u \<in> lang r" "s = u @ s1" by blast
    from 5(2)[OF go(1) refl go(2) go(3)] obtain v where v: "v \<in> star (lang r)" "s1 = v @ s'"
      by auto
    have "u @ v \<in> lang (Star r)" using u v by (auto intro: star_step)
    moreover have "s = (u @ v) @ s'" using u v by simp
    ultimately show ?thesis by blast
  qed
next
  case (6 n r g s)
  from 6(2) obtain g1 where "(s', g1) \<in> set (bt r g s)" by (auto simp: bt.simps(6))
  from 6(1)[OF this] show ?case by simp
qed

lemma bt_complete:
  "m \<in> lang r \<Longrightarrow> \<exists>g'. (s', g') \<in> set (bt r g (m @ s'))"
proof (induction r arbitrary: m s' g)
  case (Lit l)
  then show ?case by (simp add: bt.simps(1))
next
  case (Atom a)
  then show ?case by (auto simp: bt.simps(2))
next
  case (Seq a b)
  from Seq.prems obtain u v where m: "m = u @ v" and u: "u \<in> lang a" and v: "v \<in> lang b"
    by auto
  from Seq.IH(1)[OF u, of "v @ s'" g] obtain g1 where
    1: "(v @ s', g1) \<in> set (bt a g (u @ v @ s'))" by blast
  from Seq.IH(2)[OF v, of s' g1] obtain g2 where
    2: "(s', g2) \<in> set (bt b g1 (v @ s'))" by blast
  have "(s', g2) \<in> set (bt (Seq a b) g (m @ s'))"
    using 1 2 by (force simp: bt.simps(3) m)
  then show ?case by blast
next
  case (Opt r)
  then show ?case by (force simp: bt.simps(4))
next
  case (Star r)
  from Star.prems have "m \<in> star (lang r)" by simp
  then show ?case
  proof (induction arbitrary: g rule: star.induct)
    case star_Nil
    show ?case by (rule exI[of _ g]) (simp add: bt.simps(5)[of r g s'])
  next
    case (star_step u v)
    show ?case
    proof (cases "u = []")
      case True
      with star_step.IH[of g] show ?thesis by simp
    next
      case False
      from Star.IH[OF star_step.hyps(1), of "v @ s'" g] obtain g1 where
        1: "(v @ s', g1) \<in> set (bt r g (u @ v @ s'))" by blast
      from star_step.IH[of g1] obtain g2 where
        2: "(s', g2) \<in> set (bt (Star r) g1 (v @ s'))" by blast
      have len: "length (v @ s') < length (u @ v @ s')" using False by simp
      have "(s', g2) \<in> set (bt (Star r) g ((u @ v) @ s'))"
        using 1 2 len by (force simp: bt.simps(5)[of r g "u @ v @ s'"])
      then show ?thesis by blast
    qed
  qed
next
  case (Group n r)
  from Group.IH[OF Group.prems[simplified], of s' g] obtain g1 where
    "(s', g1) \<in> set (bt r g (m @ s'))" by blast
  then show ?case by (force simp: bt.simps(6))
qed

lemma re_match_iff_lang:
  "re_match p False s \<noteq> None \<longleftrightarrow> (\<exists>m v. s = m @ v \<and> m \<in> lang p)"
proof
  assume "re_match p False s \<noteq> None"
  then obtain s' g' where "(s', g') \<in> set (bt p Map.empty s)"
    by (auto simp: re_match_False split: list.splits)
  from bt_sound[OF this] show "\<exists>m v. s = m @ v \<and> m \<in> lang p" by blast
next
  assume "\<exists>m v. s = m @ v \<and> m \<in> lang p"
  then obtain m v where s: "s = m @ v" and m: "m \<in> lang p" by blast
  from bt_complete[OF m, of v Map.empty] obtain g' where
    "(v, g') \<in> set (bt p Map.empty s)" unfolding s by blast
  then show "re_match p False s \<noteq> None"
    by (auto simp: re_match_False split: list.splits)
qed

lemma re_search_iff_occurs: "re_search p x \<longleftrightarrow> occurs p x"
proof
  assume "re_search p x"
  then obtain i where i: "i \<le> length x" "re_match p False (drop i x) \<noteq> None"
    unfolding re_search_iff by blast
  then obtain m v where "drop i x = m @ v" "m \<in> lang p"
    unfolding re_match_iff_lang by blast
  then have "x = take i x @ m @ v \<and> m \<in> lang p"
    by (metis append_take_drop_id)
  then show "occurs p x" unfolding occurs_def by blast
next
  assume "occurs p x"
  then obtain u m v where x: "x = u @ m @ v" and m: "m \<in> lang p"
    unfolding occurs_def by blast
  have "re_match p False (drop (length u) x) \<noteq> None"
    unfolding re_match_iff_lang using x m by auto
  moreover have "length u \<le> length x" using x by simp
  ultimately show "re_search p x" unfolding re_search_iff by blast
qed

lemma free_of_target_patterns_iff:
  "free_of_target_patterns x \<longleftrightarrow>
     (\<not> re_search cacheMisses_pattern x \<and> \<not> re_search unitBreakdown_pattern x
      \<and> \<not> re_search brace_comma_pattern x \<and> \<not> re_search const_CacheStats_pattern x
      \<and> \<not> re_search inline_CacheStats_pattern x \<and> \<not> re_search frequency_pattern x)"
  by (simp add: free_of_target_patterns_def re_search_iff_occurs)

lemma re_sub_unchanged: "\<not> re_search p s \<Longrightarrow> re_sub p r s = s"
  unfolding re_sub_def re_search_iff
  by (rule re_sub_from_unchanged) blast

lemma re_sub_from_skip:
  "(\<And>i. i < length pre \<Longrightarrow> re_match p False (drop i pre @ s) = None) \<Longrightarrow>
   re_sub_from p r False (pre @ s) = pre @ re_sub_from p r False s"
proof (induction pre)
  case Nil
  show ?case by simp
next
  case (Cons c cs)
  have "re_match p False (c # cs @ s) = None" using Cons.prems[of 0] by simp
  moreover have "re_sub_from p r False (cs @ s) = cs @ re_sub_from p r False s"
  proof (rule Cons.IH)
    fix i assume "i < length cs"
    then show "re_match p False (drop i cs @ s) = None" using Cons.prems[of "Suc i"] by simp
  qed
  ultimately show ?case by (simp add: re_sub_from_Cons_None)
qed

lemma re_sub_from_skip_chars:
  assumes "\<And>c t. c \<in> set pre \<Longrightarrow> re_match p False (c # t) = None"
  shows "re_sub_from p r False (pre @ s) = pre @ re_sub_from p r False s"
proof (rule re_sub_from_skip)
  fix i assume i: "i < length pre"
  then have "drop i pre @ s = pre ! i # (drop (Suc i) pre @ s)"
    by (simp add: Cons_nth_drop_Suc)
  moreover have "pre ! i \<in> set pre" using i by simp
  ultimately show "re_match p False (drop i pre @ s) = None" using assms by simp
qed

lemma fix_comparison_tests_rules_clean:
  "free_of_target_patterns x \<Longrightarrow> fix_comparison_tests_rules x = x"
  by (simp add: free_of_target_patterns_iff fix_comparison_tests_rules_def
      remove_duplicate_cacheMisses_def remove_duplicate_unitBreakdown_def
      fix_remaining_syntax_def re_sub_unchanged)

lemma fix_cache_stats_rules_clean:
  "free_of_target_patterns x \<Longrightarrow> fix_cache_stats_rules x = x"
  by (simp add: free_of_target_patterns_iff fix_cache_stats_rules_def
      replace_CacheStats_objects_def fix_inline_CacheStats_objects_def
      remove_frequency_def re_sub_unchanged)

section \<open>No-op on clean input\<close>

text \<open>
  C2: a document in which none of the target patterns occurs comes out of the
  substitutions of either script exactly as it went in.
\<close>

theorem C2_noop_on_clean_input:
  "free_of_target_patterns x \<Longrightarrow>
   fix_comparison_tests_rules x = x \<and> fix_cache_stats_rules x = x"
  by (simp add: fix_comparison_tests_rules_clean fix_cache_stats_rules_clean)

theorem C2_noop_on_clean_input_witness:
  "free_of_target_patterns ''const a = { b: 1 };\<newline>''
   \<and> fix_comparison_tests_rules ''const a = { b: 1 };\<newline>'' = ''const a = { b: 1 };\<newline>''
   \<and> fix_cache_stats_rules ''const a = { b: 1 };\<newline>'' = ''const a = { b: 1 };\<newline>''"
proof -
  have h: "free_of_target_patterns ''const a = { b: 1 };\<newline>''"
    unfolding free_of_target_patterns_iff by code_simp
  show ?thesis
    using h C2_noop_on_clean_input [OF h] by simp
qed

section \<open>Idempotence\<close>

text \<open>
  C1, as stated: for every input, running the substitutions of a script twice gives what
  running them once gives. It fails for both scripts. In \<open>fix_comparison_tests.py\<close> the
  third substitution rewrites the first \<open>},}\<close> of \<open>},},}\<close> and its output
  brace, with the rest \<open>,}\<close>, is a new match for the second run. In
  \<open>fix_cache_stats.py\<close> deleting an inner \<open>frequency\<close> line joins the text around
  it into a new one.
\<close>

theorem C1_not_idempotent_counterexample:
  "fix_comparison_tests_rules (fix_comparison_tests_rules ''},},}'')
     \<noteq> fix_comparison_tests_rules ''},},}''
   \<and> fix_cache_stats_rules (fix_cache_stats_rules ''frequency: 0.frequency: 1,\<newline>5,\<newline>'')
     \<noteq> fix_cache_stats_rules ''frequency: 0.frequency: 1,\<newline>5,\<newline>''"
  by code_simp

text \<open>
  C1, amended: on every input already free of the patterns being fixed, running the
  substitutions of a script twice gives what running them once gives.
\<close>

theorem C1_idempotent_on_clean_input:
  "free_of_target_patterns x \<Longrightarrow>
   fix_comparison_tests_rules (fix_comparison_tests_rules x) = fix_comparison_tests_rules x
   \<and> fix_cache_stats_rules (fix_cache_stats_rules x) = fix_cache_stats_rules x"
  by (simp add: fix_comparison_tests_rules_clean fix_cache_stats_rules_clean)

theorem C1_idempotent_on_clean_input_witness:
  "free_of_target_patterns ''let n = 3;''
   \<and> fix_comparison_tests_rules (fix_comparison_tests_rules ''let n = 3;'')
       = fix_comparison_tests_rules ''let n = 3;''
   \<and> fix_cache_stats_rules (fix_cache_stats_rules ''let n = 3;'')
       = fix_cache_stats_rules ''let n = 3;''"
proof -
  have h: "free_of_target_patterns ''let n = 3;''"
    unfolding free_of_target_patterns_iff by code_simp
  show ?thesis
    using h C1_idempotent_on_clean_input [OF h] by simp
qed

section \<open>Rule 1 on a repeated key-value line\<close>

lemma bt_cacheMisses_pair:
  assumes "d \<noteq> []" "list_all is_digit d"
  shows "bt (Seq (Lit ''cacheMisses: '') (Seq (Plus (Atom (Category Digit)))
           (Seq (Lit '','') k))) g
           (''cacheMisses: '' @ d @ '','' @ t) = bt k g t"
proof -
  obtain x xs where d: "d = x # xs" using assms(1) by (cases d) auto
  have "list_all (atom_ok (Category Digit)) xs" "is_digit x"
    using assms(2) d by (auto simp: list_all_iff)
  moreover have "\<not> is_digit CHR '',''" by (simp add: cls_eval)
  ultimately show ?thesis
    by (simp add: d bt_eval bt_Seq_Plus bt_Star_then_Lit bt_Plus_then_Lit dropWhile_all_append)
qed

lemma cacheMisses_match:
  assumes d1: "d1 \<noteq> []" "list_all is_digit d1"
      and d2: "d2 \<noteq> []" "list_all is_digit d2"
      and w: "list_all is_space w" "CHR ''\<newline>'' \<in> set w"
  shows "re_match cacheMisses_pattern False
           (''cacheMisses: '' @ d1 @ '','' @ w @ ''cacheMisses: '' @ d2 @ '','' @ rest)
         = Some (rest, [1 \<mapsto> ''cacheMisses: '' @ d1 @ '',''])"
proof -
  let ?tail = "w @ ''cacheMisses: '' @ d2 @ '','' @ rest"
  let ?s = "''cacheMisses: '' @ d1 @ '','' @ ?tail"
  have n: "0 < count_list w CHR ''\<newline>''" using w(2) by (rule count_list_pos)
  have notc: "\<not> is_space CHR ''c''" by (simp add: cls_eval)
  have grp: "take (length ?s - length ?tail) ?s = ''cacheMisses: '' @ d1 @ '',''"
  proof -
    have "take (length ((''cacheMisses: '' @ d1 @ '','') @ ?tail) - length ?tail)
            ((''cacheMisses: '' @ d1 @ '','') @ ?tail) = ''cacheMisses: '' @ d1 @ '',''"
      by (rule take_length_diff)
    then show ?thesis by (simp only: append_assoc)
  qed
  have tw: "takeWhile is_space ?tail = w"
    using w(1) notc by (simp add: takeWhile_all_append)
  have dw: "dropWhile is_space ?tail = ''cacheMisses: '' @ d2 @ '','' @ rest"
    using w(1) notc by (simp add: dropWhile_all_append)
  have tail: "bt (Seq (Star (Atom (Category Space)))
           (Seq (Lit ''\<newline>'') (Seq (Star (Atom (Category Space)))
             (Seq (Lit ''cacheMisses: '') (Seq (Plus (Atom (Category Digit)))
               (Seq (Lit '','') (Lit []))))))) g ?tail
       = concat (replicate (count_list w CHR ''\<newline>'') [(rest, g)])" for g
    by (simp only: bt_blank_then_Lit[OF notc] tw dw bt_cacheMisses_pair[OF d2] bt_Lit_Nil)
  have "bt cacheMisses_pattern Map.empty ?s
      = concat (replicate (count_list w CHR ''\<newline>'')
          [(rest, [1 \<mapsto> ''cacheMisses: '' @ d1 @ '',''])])"
    unfolding cacheMisses_pattern_def seqs_def foldr.simps o_def id_def
    by (simp only: bt_Seq_Group bt_cacheMisses_pair[OF d1] bt_Lit_Nil list.map concat.simps
        append_Nil2 prod.case tail grp)
  then show ?thesis
    using n by (simp only: re_match_False first_concat_replicate list.case)
qed

lemma remove_duplicate_cacheMisses_pair:
  assumes d1: "d1 \<noteq> []" "list_all is_digit d1"
      and d2: "d2 \<noteq> []" "list_all is_digit d2"
      and w: "list_all is_space w" "CHR ''\<newline>'' \<in> set w"
  shows "remove_duplicate_cacheMisses
           (''cacheMisses: '' @ d1 @ '','' @ w @ ''cacheMisses: '' @ d2 @ '','' @ rest)
         = (''cacheMisses: '' @ d1 @ '','') @ remove_duplicate_cacheMisses rest"
proof -
  let ?s = "''cacheMisses: '' @ d1 @ '','' @ w @ ''cacheMisses: '' @ d2 @ '','' @ rest"
  have len: "length rest < length ?s" by simp
  show ?thesis
    unfolding remove_duplicate_cacheMisses_def re_sub_def
    by (simp only: re_sub_from_Some[OF cacheMisses_match[OF d1 d2 w] len]) simp
qed

lemma remove_duplicate_unitBreakdown_cacheMisses_prefix:
  assumes "list_all is_digit d1"
  shows "remove_duplicate_unitBreakdown ((''cacheMisses: '' @ d1 @ '','') @ s)
         = (''cacheMisses: '' @ d1 @ '','') @ remove_duplicate_unitBreakdown s"
  unfolding remove_duplicate_unitBreakdown_def re_sub_def
proof (rule re_sub_from_skip_chars)
  fix c t assume "c \<in> set (''cacheMisses: '' @ d1 @ '','')"
  then have "c \<noteq> CHR ''u''" using assms by (auto simp: list_all_iff cls_eval)
  then show "re_match unitBreakdown_pattern False (c # t) = None"
    by (rule unitBreakdown_first_char)
qed

lemma fix_remaining_syntax_cacheMisses_prefix:
  assumes "list_all is_digit d1"
  shows "fix_remaining_syntax ((''cacheMisses: '' @ d1 @ '','') @ s)
         = (''cacheMisses: '' @ d1 @ '','') @ fix_remaining_syntax s"
  unfolding fix_remaining_syntax_def re_sub_def
proof (rule re_sub_from_skip_chars)
  fix c t assume "c \<in> set (''cacheMisses: '' @ d1 @ '','')"
  then have "c \<noteq> CHR ''}''" using assms by (auto simp: list_all_iff cls_eval)
  then show "re_match brace_comma_pattern False (c # t) = None"
    by (rule brace_comma_first_char)
qed


text \<open>
  C3, as stated: on the input \<open>x: 1,\<close> newline \<open>x: 1,\<close> newline the output is
  \<open>x: 1,\<close> newline. Neither script does that: the only key the first substitution
  looks for is \<open>cacheMisses\<close>, and the input comes back as it was.
\<close>

theorem C3_generic_key_counterexample:
  "fix_comparison_tests_rules ''x: 1,\<newline>x: 1,\<newline>'' = ''x: 1,\<newline>x: 1,\<newline>''
   \<and> fix_cache_stats_rules ''x: 1,\<newline>x: 1,\<newline>'' = ''x: 1,\<newline>x: 1,\<newline>''
   \<and> ''x: 1,\<newline>x: 1,\<newline>'' \<noteq> ''x: 1,\<newline>''"
  by code_simp

text \<open>
  C3, amended: with the key \<open>cacheMisses\<close> the repeated line is collapsed to its
  first occurrence. Where the document starts with \<open>cacheMisses: d1,\<close> followed,
  across whitespace \<open>w\<close> that contains a newline, by \<open>cacheMisses: d2,\<close> (\<open>d1\<close>
  and \<open>d2\<close> digits), the output of \<open>fix_comparison_tests.py\<close>'s substitutions is
  \<open>cacheMisses: d1,\<close> followed by their output on the rest of the document. On \<open>cacheMisses: 1,\<close> newline
  \<open>cacheMisses: 1,\<close> newline that is \<open>cacheMisses: 1,\<close> newline.
\<close>

theorem C3_cacheMisses_dedup:
  assumes "d1 \<noteq> []" "list_all is_digit d1" "d2 \<noteq> []" "list_all is_digit d2"
      and "list_all is_space w" "CHR ''\<newline>'' \<in> set w"
  shows "fix_comparison_tests_rules
           (''cacheMisses: '' @ d1 @ '','' @ w @ ''cacheMisses: '' @ d2 @ '','' @ rest)
         = ''cacheMisses: '' @ d1 @ '','' @ fix_comparison_tests_rules rest"
  unfolding fix_comparison_tests_rules_def
  by (simp only: remove_duplicate_cacheMisses_pair[OF assms]
      remove_duplicate_unitBreakdown_cacheMisses_prefix[OF assms(2)]
      fix_remaining_syntax_cacheMisses_prefix[OF assms(2)]) simp

theorem C3_cacheMisses_dedup_witness:
  "fix_comparison_tests_rules ''cacheMisses: 1,\<newline>cacheMisses: 1,\<newline>''
   = ''cacheMisses: 1,\<newline>''"
proof -
  have r: "fix_comparison_tests_rules ''\<newline>'' = ''\<newline>''" by code_simp
  show ?thesis
    using C3_cacheMisses_dedup [of "''1''" "''1''" "''\<newline>''" "''\<newline>''"] r
    by (simp add: cls_eval)
qed

section \<open>Rule 3 on a comma in front of a closing brace\<close>

lemma cacheMisses_brace_comma_brace:
  assumes "list_all is_space ws"
  shows "remove_duplicate_cacheMisses (''},'' @ ws @ ''}'') = ''},'' @ ws @ ''}''"
proof -
  have "re_sub_from cacheMisses_pattern (Template [TRef 1]) False ((''},'' @ ws @ ''}'') @ [])
      = (''},'' @ ws @ ''}'') @ re_sub_from cacheMisses_pattern (Template [TRef 1]) False []"
  proof (rule re_sub_from_skip_chars)
    fix c t assume "c \<in> set (''},'' @ ws @ ''}'')"
    then have "c \<noteq> CHR ''c''" using assms by (auto simp: list_all_iff cls_eval)
    then show "re_match cacheMisses_pattern False (c # t) = None"
      by (rule cacheMisses_first_char)
  qed
  then show ?thesis
    by (simp add: remove_duplicate_cacheMisses_def re_sub_def re_sub_from_Nil_None
        cacheMisses_Nil)
qed

lemma unitBreakdown_brace_comma_brace:
  assumes "list_all is_space ws"
  shows "remove_duplicate_unitBreakdown (''},'' @ ws @ ''}'') = ''},'' @ ws @ ''}''"
proof -
  have "re_sub_from unitBreakdown_pattern (Template [TRef 1]) False ((''},'' @ ws @ ''}'') @ [])
      = (''},'' @ ws @ ''}'') @ re_sub_from unitBreakdown_pattern (Template [TRef 1]) False []"
  proof (rule re_sub_from_skip_chars)
    fix c t assume "c \<in> set (''},'' @ ws @ ''}'')"
    then have "c \<noteq> CHR ''u''" using assms by (auto simp: list_all_iff cls_eval)
    then show "re_match unitBreakdown_pattern False (c # t) = None"
      by (rule unitBreakdown_first_char)
  qed
  then show ?thesis
    by (simp add: remove_duplicate_unitBreakdown_def re_sub_def re_sub_from_Nil_None
        unitBreakdown_Nil)
qed

lemma fix_remaining_syntax_brace_comma_brace:
  assumes "list_all is_space ws"
  shows "fix_remaining_syntax (''},'' @ ws @ ''}'') = ''}\<newline>      }''"
proof -
  have ws: "list_all (atom_ok (Category Space)) ws" using assms by (simp add: list_all_iff)
  have m: "re_match brace_comma_pattern False (''},'' @ ws @ ''}'') = Some ([], Map.empty)"
    using ws by (simp add: brace_comma_pattern_def seqs_def re_match_False
      bt_eval bt_Star_then_Lit cls_eval dropWhile_all_append)
  show ?thesis
    unfolding fix_remaining_syntax_def re_sub_def
    apply (subst re_sub_from_Some[OF m])
     apply simp
    apply (simp add: re_sub_from_Nil_None brace_comma_Nil)
    done
qed

lemma occurs_suffix: "occurs p t \<Longrightarrow> occurs p (u @ t)"
proof -
  assume "occurs p t"
  then obtain a m b where "t = a @ m @ b" "m \<in> lang p" unfolding occurs_def by blast
  then have "u @ t = (u @ a) @ m @ b \<and> m \<in> lang p" by simp
  then show ?thesis unfolding occurs_def by blast
qed

lemma brace_comma_match:
  assumes "list_all is_space ws"
  shows "re_match brace_comma_pattern False (''},'' @ ws @ ''}'' @ rest) = Some (rest, Map.empty)"
proof -
  have ws: "list_all (atom_ok (Category Space)) ws" using assms by (simp add: list_all_iff)
  show ?thesis
    using ws by (simp add: brace_comma_pattern_def seqs_def re_match_False
      bt_eval bt_Star_then_Lit cls_eval dropWhile_all_append)
qed

lemma fix_remaining_syntax_leftmost:
  assumes ws: "list_all is_space ws"
      and pre: "list_all (\<lambda>i. re_match brace_comma_pattern False
                  (drop i (pre @ ''},'' @ ws @ ''}'' @ rest)) = None) [0..<length pre]"
  shows "fix_remaining_syntax (pre @ ''},'' @ ws @ ''}'' @ rest)
         = pre @ ''}\<newline>      }'' @ fix_remaining_syntax rest"
proof -
  let ?s = "''},'' @ ws @ ''}'' @ rest"
  let ?r = "Template [TLit ''}\<newline>      }'']"
  have skip: "re_sub_from brace_comma_pattern ?r False (pre @ ?s)
      = pre @ re_sub_from brace_comma_pattern ?r False ?s"
  proof (rule re_sub_from_skip)
    fix i assume "i < length pre"
    then show "re_match brace_comma_pattern False (drop i pre @ ?s) = None"
      using pre by (simp add: list_all_iff)
  qed
  have len: "length rest < length ?s" by simp
  have here: "re_sub_from brace_comma_pattern ?r False ?s
      = ''}\<newline>      }'' @ re_sub_from brace_comma_pattern ?r False rest"
    by (simp only: re_sub_from_Some[OF brace_comma_match[OF ws] len]) simp
  show ?thesis
    unfolding fix_remaining_syntax_def re_sub_def by (simp only: skip here)
qed

lemma fix_comparison_tests_rules_no_duplicates:
  assumes "\<not> occurs cacheMisses_pattern x" "\<not> occurs unitBreakdown_pattern x"
  shows "fix_comparison_tests_rules x = fix_remaining_syntax x"
  using assms
  by (simp add: fix_comparison_tests_rules_def remove_duplicate_cacheMisses_def
      remove_duplicate_unitBreakdown_def re_sub_unchanged re_search_iff_occurs)

text \<open>
  C4, as stated: on the input \<open>value,\<close> newline \<open>}\<close> the output is \<open>value\<close>
  newline \<open>}\<close>. Neither script removes that comma: the third substitution of
  \<open>fix_comparison_tests.py\<close> looks for a comma that follows a closing brace, and the
  input comes back as it was.
\<close>

theorem C4_comma_without_brace_counterexample:
  "fix_comparison_tests_rules ''value,\<newline>}'' = ''value,\<newline>}''
   \<and> fix_cache_stats_rules ''value,\<newline>}'' = ''value,\<newline>}''
   \<and> ''value,\<newline>}'' \<noteq> ''value\<newline>}''"
  by code_simp

text \<open>
  C4, amended: on the input \<open>},\<close> newline \<open>}\<close>, and on \<open>},\<close> whitespace
  \<open>}\<close> with any whitespace, the output of \<open>fix_comparison_tests.py\<close>'s
  substitutions is \<open>}\<close> newline, six spaces, \<open>}\<close>. In a longer document in
  which neither duplicate pattern occurs, the leftmost \<open>},\<close> whitespace \<open>}\<close> (no
  match of the pattern starts in the text \<open>pre\<close> before it) is rewritten in that way,
  \<open>pre\<close> is kept and the substitutions go on with the text behind the second brace.
  The scan does not come back to that brace: a comma right behind it, like the second
  comma of \<open>},},}\<close>, stays.
\<close>

theorem C4_brace_comma_brace:
  assumes "list_all is_space ws"
  shows "fix_comparison_tests_rules (''},'' @ ws @ ''}'') = ''}\<newline>      }''
     \<and> (\<not> occurs cacheMisses_pattern (pre @ ''},'' @ ws @ ''}'' @ rest)
        \<and> \<not> occurs unitBreakdown_pattern (pre @ ''},'' @ ws @ ''}'' @ rest)
        \<and> list_all (\<lambda>i. re_match brace_comma_pattern False
                  (drop i (pre @ ''},'' @ ws @ ''}'' @ rest)) = None) [0..<length pre]
        \<longrightarrow> fix_comparison_tests_rules (pre @ ''},'' @ ws @ ''}'' @ rest)
            = pre @ ''}\<newline>      }'' @ fix_comparison_tests_rules rest)"
proof (intro conjI impI)
  show "fix_comparison_tests_rules (''},'' @ ws @ ''}'') = ''}\<newline>      }''"
    unfolding fix_comparison_tests_rules_def
    by (simp only: cacheMisses_brace_comma_brace[OF assms] unitBreakdown_brace_comma_brace[OF assms]
      fix_remaining_syntax_brace_comma_brace[OF assms])
next
  let ?x = "pre @ ''},'' @ ws @ ''}'' @ rest"
  assume h: "\<not> occurs cacheMisses_pattern ?x \<and> \<not> occurs unitBreakdown_pattern ?x
        \<and> list_all (\<lambda>i. re_match brace_comma_pattern False (drop i ?x) = None) [0..<length pre]"
  have x: "?x = (pre @ ''},'' @ ws @ ''}'') @ rest" by simp
  have r1: "\<not> occurs cacheMisses_pattern rest"
    using h occurs_suffix[of cacheMisses_pattern rest "pre @ ''},'' @ ws @ ''}''"]
    unfolding x[symmetric] by blast
  have r2: "\<not> occurs unitBreakdown_pattern rest"
    using h occurs_suffix[of unitBreakdown_pattern rest "pre @ ''},'' @ ws @ ''}''"]
    unfolding x[symmetric] by blast
  have "fix_comparison_tests_rules ?x = fix_remaining_syntax ?x"
    using h by (intro fix_comparison_tests_rules_no_duplicates) blast+
  also have "\<dots> = pre @ ''}\<newline>      }'' @ fix_remaining_syntax rest"
    using h by (intro fix_remaining_syntax_leftmost[OF assms]) blast
  also have "fix_remaining_syntax rest = fix_comparison_tests_rules rest"
    by (rule fix_comparison_tests_rules_no_duplicates[OF r1 r2, symmetric])
  finally show "fix_comparison_tests_rules ?x
      = pre @ ''}\<newline>      }'' @ fix_comparison_tests_rules rest" .
qed

theorem C4_brace_comma_brace_witness:
  "list_all is_space ''\<newline>''
   \<and> fix_comparison_tests_rules ''},\<newline>}'' = ''}\<newline>      }''
   \<and> fix_comparison_tests_rules ''a: {b: 1},\<newline>},}'' = ''a: {b: 1}\<newline>      },}''"
proof -
  have ws: "list_all is_space ''\<newline>''" by (simp add: cls_eval)
  have h1: "\<not> occurs cacheMisses_pattern (''a: {b: 1'' @ ''},'' @ ''\<newline>'' @ ''}'' @ '',}'')"
    unfolding re_search_iff_occurs[symmetric] by code_simp
  have h2: "\<not> occurs unitBreakdown_pattern (''a: {b: 1'' @ ''},'' @ ''\<newline>'' @ ''}'' @ '',}'')"
    unfolding re_search_iff_occurs[symmetric] by code_simp
  have h3: "list_all (\<lambda>i. re_match brace_comma_pattern False
                  (drop i (''a: {b: 1'' @ ''},'' @ ''\<newline>'' @ ''}'' @ '',}'')) = None)
              [0..<length ''a: {b: 1'']"
    by code_simp
  have r: "fix_comparison_tests_rules '',}'' = '',}''" by code_simp
  show ?thesis
    using ws h1 h2 h3 r C4_brace_comma_brace [OF ws, of "''a: {b: 1''" "'',}''"]
    by simp
qed

section \<open>Rule 4 on a typed \<open>CacheStats\<close> declaration\<close>

lemma replace_CacheStats_objects_const_s:
  assumes "f \<noteq> []" "CHR ''}'' \<notin> set f"
  shows "replace_CacheStats_objects (''const s: CacheStats = {'' @ f @ ''};'')
         = ''const s: CacheStats = '' @ complete_cache_stats @ '';''"
proof -
  obtain x xs where f: "f = x # xs" using assms(1) by (cases f) auto
  have nb: "list_all (atom_ok (NotIn [Chr CHR ''}''])) xs" "x \<noteq> CHR ''}''"
    using assms(2) f by (auto simp: list_all_iff)
  have m: "re_match const_CacheStats_pattern False (''const s: CacheStats = {'' @ f @ ''};'')
           = Some ([], Map.empty)"
    using nb by (simp add: const_CacheStats_pattern_def seqs_def Plus_def re_match_False f
      bt_eval bt_Star_then_Lit bt_Plus_then_Lit cls_eval dropWhile_all_append)
  show ?thesis
    unfolding replace_CacheStats_objects_def re_sub_def
    apply (subst re_sub_from_Some[OF m])
     apply simp
    apply (simp add: const_CacheStats_repl_def hd_str_split)
    apply (simp add: re_sub_from_Nil_None const_CacheStats_Nil)
    done
qed

lemma fix_inline_CacheStats_objects_const_s:
  "fix_inline_CacheStats_objects (''const s: CacheStats = '' @ complete_cache_stats @ '';'')
   = ''const s: CacheStats = '' @ complete_cache_stats @ '';''"
  by (simp add: fix_inline_CacheStats_objects_def re_sub_def inline_CacheStats_pattern_def
      seqs_def Plus_def bt_eval cls_eval sub_eval complete_cache_stats_def)

lemma remove_frequency_const_s:
  "remove_frequency (''const s: CacheStats = '' @ complete_cache_stats @ '';'')
   = ''const s: CacheStats = '' @ complete_cache_stats @ '';''"
  by (simp add: remove_frequency_def re_sub_def frequency_pattern_def seqs_def Plus_def
      bt_eval cls_eval sub_eval complete_cache_stats_def)

text \<open>
  C5: the declaration \<open>const s: CacheStats = { hits: 1 };\<close> comes out of
  \<open>fix_cache_stats.py\<close>'s substitutions with its whole right-hand side replaced by the
  canonical literal, and so does the declaration with any other fields \<open>f\<close> between
  the braces (a non-empty text without a closing brace).
\<close>

theorem C5_canonical_literal:
  "f \<noteq> [] \<Longrightarrow> CHR ''}'' \<notin> set f \<Longrightarrow>
   fix_cache_stats_rules (''const s: CacheStats = {'' @ f @ ''};'')
   = ''const s: CacheStats = '' @ complete_cache_stats @ '';''"
proof -
  assume a: "f \<noteq> []" "CHR ''}'' \<notin> set f"
  show ?thesis
    unfolding fix_cache_stats_rules_def
    by (simp only: replace_CacheStats_objects_const_s[OF a]
        fix_inline_CacheStats_objects_const_s remove_frequency_const_s)
qed

theorem C5_canonical_literal_witness:
  "'' hits: 1 '' \<noteq> [] \<and> CHR ''}'' \<notin> set '' hits: 1 ''
   \<and> fix_cache_stats_rules ''const s: CacheStats = { hits: 1 };''
       = ''const s: CacheStats = '' @ complete_cache_stats @ '';''"
  using C5_canonical_literal [of "'' hits: 1 ''"] by simp

section \<open>Rule 2 on a repeated block-valued key\<close>

lemma remove_duplicate_unitBreakdown_pair:
  assumes b1: "b1 \<noteq> []" "CHR ''}'' \<notin> set b1"
      and b2: "b2 \<noteq> []" "CHR ''}'' \<notin> set b2"
      and comma: "comma = [] \<or> comma = '',''"
      and w: "list_all is_space w" "CHR ''\<newline>'' \<in> set w"
  shows "re_sub_from unitBreakdown_pattern (Template [TRef 1]) False
           (''unitBreakdown: {'' @ b1 @ ''}'' @ comma @ w @ ''unitBreakdown: {'' @ b2 @ ''}'' @ rest)
         = ''unitBreakdown: {'' @ b1 @ ''}'' @
           re_sub_from unitBreakdown_pattern (Template [TRef 1]) False rest"
proof -
  let ?tail = "comma @ w @ ''unitBreakdown: {'' @ b2 @ ''}'' @ rest"
  let ?s = "''unitBreakdown: {'' @ b1 @ ''}'' @ ?tail"
  have m: "re_match unitBreakdown_pattern False ?s
         = Some (rest, [1 \<mapsto> ''unitBreakdown: {'' @ b1 @ ''}''])"
    by (rule unitBreakdown_match[OF b1 b2 comma w])
  have len: "length rest < length ?s" by simp
  show ?thesis
    by (simp only: re_sub_from_Some[OF m len]) simp
qed

text \<open>
  C7, as stated: whenever a key with a brace-delimited block value is immediately
  followed by a second assignment of the same key to a block, the two are collapsed to
  the first. With the key \<open>x\<close> nothing happens: the second substitution of
  \<open>fix_comparison_tests.py\<close> looks for the key \<open>unitBreakdown\<close> only.
\<close>

theorem C7_generic_key_counterexample:
  "remove_duplicate_unitBreakdown ''x: {a}\<newline>x: {b}'' = ''x: {a}\<newline>x: {b}''
   \<and> fix_comparison_tests_rules ''x: {a}\<newline>x: {b}'' = ''x: {a}\<newline>x: {b}''
   \<and> ''x: {a}\<newline>x: {b}'' \<noteq> ''x: {a}''"
  by code_simp

text \<open>
  C7, amended: where \<open>unitBreakdown: {b1}\<close> is followed, across an optional comma
  and whitespace \<open>w\<close> that contains a newline, by \<open>unitBreakdown: {b2}\<close>, both
  blocks being non-empty and without a closing brace inside, and no match of the pattern
  starts in the text \<open>pre\<close> before the pair, the second substitution keeps \<open>pre\<close>
  and the first assignment, drops the separator and the second assignment, and goes on
  with the rest of the document.
\<close>

theorem C7_unitBreakdown_dedup:
  assumes "b1 \<noteq> []" "CHR ''}'' \<notin> set b1" "b2 \<noteq> []" "CHR ''}'' \<notin> set b2"
      and "comma = [] \<or> comma = '',''"
      and "list_all is_space w" "CHR ''\<newline>'' \<in> set w"
      and "list_all (\<lambda>i. re_match unitBreakdown_pattern False
             (drop i (pre @ ''unitBreakdown: {'' @ b1 @ ''}'' @ comma @ w @
                      ''unitBreakdown: {'' @ b2 @ ''}'' @ rest)) = None) [0..<length pre]"
  shows "remove_duplicate_unitBreakdown
           (pre @ ''unitBreakdown: {'' @ b1 @ ''}'' @ comma @ w @
            ''unitBreakdown: {'' @ b2 @ ''}'' @ rest)
         = pre @ ''unitBreakdown: {'' @ b1 @ ''}'' @ remove_duplicate_unitBreakdown rest"
proof -
  let ?s = "''unitBreakdown: {'' @ b1 @ ''}'' @ comma @ w @ ''unitBreakdown: {'' @ b2 @ ''}'' @ rest"
  have "re_sub_from unitBreakdown_pattern (Template [TRef 1]) False (pre @ ?s)
      = pre @ re_sub_from unitBreakdown_pattern (Template [TRef 1]) False ?s"
  proof (rule re_sub_from_skip)
    fix i assume "i < length pre"
    then show "re_match unitBreakdown_pattern False (drop i pre @ ?s) = None"
      using assms(8) by (simp add: list_all_iff)
  qed
  then show ?thesis
    unfolding remove_duplicate_unitBreakdown_def re_sub_def
    by (simp only: remove_duplicate_unitBreakdown_pair[OF assms(1-7)])
qed

theorem C7_unitBreakdown_dedup_witness:
  "remove_duplicate_unitBreakdown
     ''{\<newline>  unitBreakdown: { ms: 1 },\<newline>  unitBreakdown: { ms: 2 },\<newline>}''
   = ''{\<newline>  unitBreakdown: { ms: 1 },\<newline>}''"
proof -
  have tl: "remove_duplicate_unitBreakdown '',\<newline>}'' = '',\<newline>}''"
    by code_simp
  have h: "list_all (\<lambda>i. re_match unitBreakdown_pattern False
             (drop i (''{\<newline>  '' @ ''unitBreakdown: {'' @ '' ms: 1 '' @ ''}'' @ '','' @
                      ''\<newline>  '' @ ''unitBreakdown: {'' @ '' ms: 2 '' @ ''}'' @ '',\<newline>}''))
             = None) [0..<length ''{\<newline>  '']"
    by code_simp
  show ?thesis
    using C7_unitBreakdown_dedup [of "'' ms: 1 ''" "'' ms: 2 ''" "'',''" "''\<newline>  ''"
        "''{\<newline>  ''" "'',\<newline>}''"] h tl
    by (simp add: cls_eval)
qed

section \<open>What a \<open>CacheStats\<close> replacement keeps\<close>

text \<open>
  C10: in every replacement of the two \<open>CacheStats\<close> substitutions, the matched
  text before its first \<open>=\<close> (the \<open>const\<close> keyword where the pattern has it, the
  variable name and the \<open>: CacheStats\<close> annotation) is the start of the replacement,
  and what follows it in the replacement is \<open>=\<close>, a space and the canonical literal
  (with the semicolon, for the first substitution). Here \<open>take (length s - length s') s\<close>
  is the matched text \<open>m.group(0)\<close> of a match at the start of \<open>s\<close> that leaves
  \<open>s'\<close> unread.
\<close>

theorem C10_text_before_equals_preserved:
  "(re_match const_CacheStats_pattern False s = Some (s', g) \<longrightarrow>
      (\<exists>name. name \<noteq> [] \<and> list_all is_word name
         \<and> takeWhile (\<lambda>c. c \<noteq> CHR ''='') (take (length s - length s') s)
             = ''const '' @ name @ '': CacheStats '')
      \<and> expand (Func const_CacheStats_repl) (take (length s - length s') s) g
          = takeWhile (\<lambda>c. c \<noteq> CHR ''='') (take (length s - length s') s)
            @ ''= '' @ complete_cache_stats @ '';'')
   \<and> (re_match inline_CacheStats_pattern False s = Some (s', g) \<longrightarrow>
      (\<exists>name. name \<noteq> [] \<and> list_all is_word name
         \<and> takeWhile (\<lambda>c. c \<noteq> CHR ''='') (take (length s - length s') s)
             = name @ '': CacheStats '')
      \<and> expand (Template [TRef 1, TLit complete_cache_stats]) (take (length s - length s') s) g
          = takeWhile (\<lambda>c. c \<noteq> CHR ''='') (take (length s - length s') s)
            @ ''= '' @ complete_cache_stats)"
proof (intro conjI impI)
  assume m: "re_match const_CacheStats_pattern False s = Some (s', g)"
  show "expand (Func const_CacheStats_repl) (take (length s - length s') s) g
          = takeWhile (\<lambda>c. c \<noteq> CHR ''='') (take (length s - length s') s)
            @ ''= '' @ complete_cache_stats @ '';''"
    by (simp add: const_CacheStats_repl_def hd_str_split)
  from const_CacheStats_match[OF m] obtain name body where
    name: "name \<noteq> []" "list_all is_word name"
    and s: "s = ''const '' @ name @ '': CacheStats = {'' @ body @ ''};'' @ s'" by blast
  have s2: "s = (''const '' @ name @ '': CacheStats = {'' @ body @ ''};'') @ s'"
    using s by simp
  have mt: "take (length s - length s') s = ''const '' @ name @ '': CacheStats = {'' @ body @ ''};''"
    by (subst s2, subst s2) (rule take_length_diff)
  have "list_all (\<lambda>c. c \<noteq> CHR ''='') (''const '' @ name @ '': CacheStats '')"
    using name(2) by (auto simp: list_all_iff dest: is_word_not_eq)
  then have "takeWhile (\<lambda>c. c \<noteq> CHR ''='')
      ((''const '' @ name @ '': CacheStats '') @ CHR ''='' # '' {'' @ body @ ''};'')
      = ''const '' @ name @ '': CacheStats ''"
    by (rule takeWhile_stop) simp
  then have "takeWhile (\<lambda>c. c \<noteq> CHR ''='') (take (length s - length s') s)
      = ''const '' @ name @ '': CacheStats ''"
    by (simp add: mt)
  then show "\<exists>name. name \<noteq> [] \<and> list_all is_word name
         \<and> takeWhile (\<lambda>c. c \<noteq> CHR ''='') (take (length s - length s') s)
             = ''const '' @ name @ '': CacheStats ''"
    using name by blast
next
  assume m: "re_match inline_CacheStats_pattern False s = Some (s', g)"
  from inline_CacheStats_match[OF m] obtain name body where
    name: "name \<noteq> []" "list_all is_word name"
    and s: "s = name @ '': CacheStats = '' @ ''{'' @ body @ ''}'' @ s'"
    and g: "g = [1 \<mapsto> name @ '': CacheStats = '']" by blast
  have s2: "s = (name @ '': CacheStats = '' @ ''{'' @ body @ ''}'') @ s'"
    using s by simp
  have mt: "take (length s - length s') s = name @ '': CacheStats = '' @ ''{'' @ body @ ''}''"
    by (subst s2, subst s2) (rule take_length_diff)
  have "list_all (\<lambda>c. c \<noteq> CHR ''='') (name @ '': CacheStats '')"
    using name(2) by (auto simp: list_all_iff dest: is_word_not_eq)
  then have "takeWhile (\<lambda>c. c \<noteq> CHR ''='')
      ((name @ '': CacheStats '') @ CHR ''='' # '' {'' @ body @ ''}'')
      = name @ '': CacheStats ''"
    by (rule takeWhile_stop) simp
  then have tw: "takeWhile (\<lambda>c. c \<noteq> CHR ''='') (take (length s - length s') s)
      = name @ '': CacheStats ''"
    by (simp add: mt)
  then show "\<exists>name. name \<noteq> [] \<and> list_all is_word name
         \<and> takeWhile (\<lambda>c. c \<noteq> CHR ''='') (take (length s - length s') s)
             = name @ '': CacheStats ''"
    using name by blast
  show "expand (Template [TRef 1, TLit complete_cache_stats]) (take (length s - length s') s) g
          = takeWhile (\<lambda>c. c \<noteq> CHR ''='') (take (length s - length s') s)
            @ ''= '' @ complete_cache_stats"
    by (simp add: tw g)
qed

theorem C10_text_before_equals_preserved_witness:
  "re_match const_CacheStats_pattern False ''const s: CacheStats = { hits: 1 };''
     = Some ([], Map.empty)
   \<and> expand (Func const_CacheStats_repl) ''const s: CacheStats = { hits: 1 };'' Map.empty
     = ''const s: CacheStats '' @ ''= '' @ complete_cache_stats @ '';''
   \<and> re_match inline_CacheStats_pattern False ''s: CacheStats = { hits: 1 }''
     = Some ([], [1 \<mapsto> ''s: CacheStats = ''])
   \<and> expand (Template [TRef 1, TLit complete_cache_stats]) ''s: CacheStats = { hits: 1 }''
        [1 \<mapsto> ''s: CacheStats = '']
     = ''s: CacheStats '' @ ''= '' @ complete_cache_stats"
proof -
  have h1: "re_match const_CacheStats_pattern False ''const s: CacheStats = { hits: 1 };''
     = Some ([], Map.empty)"
    by (simp add: const_CacheStats_pattern_def seqs_def re_match_False bt_eval bt_Seq_Plus cls_eval)
  have h2: "re_match inline_CacheStats_pattern False ''s: CacheStats = { hits: 1 }''
     = Some ([], [1 \<mapsto> ''s: CacheStats = ''])"
    by (simp add: inline_CacheStats_pattern_def seqs_def re_match_False bt_eval bt_Seq_Plus cls_eval)
  show ?thesis
    using h1 h2
      C10_text_before_equals_preserved [of "''const s: CacheStats = { hits: 1 };''" "[]" Map.empty]
      C10_text_before_equals_preserved [of "''s: CacheStats = { hits: 1 }''" "[]" "[1 \<mapsto> ''s: CacheStats = '']"]
    by simp
qed

section \<open>Rule 5 on a \<open>frequency\<close> line\<close>

lemma drop_blank_lines_nonspace: "\<not> is_space d \<Longrightarrow> drop_blank_lines (d # t) = d # t"
  by simp

lemma re_sub_from_head_nonspace:
  assumes m: "\<And>s s' g. re_match p False s = Some (s', g) \<Longrightarrow>
            length s' < length s
            \<and> (\<exists>d t. expand r (take (length s - length s') s) g = d # t \<and> \<not> is_space d)"
      and c: "\<not> is_space c"
  shows "\<exists>d t. re_sub_from p r False (c # cs) = d # t \<and> \<not> is_space d"
proof (cases "re_match p False (c # cs)")
  case None
  then show ?thesis using c by (simp add: re_sub_from_Cons_None)
next
  case (Some x)
  obtain s' g where x: "x = (s', g)" by (cases x)
  from m[OF Some[unfolded x]] obtain d t where
    len: "length s' < length (c # cs)"
    and e: "expand r (take (length (c # cs) - length s') (c # cs)) g = d # t" "\<not> is_space d"
    by blast
  show ?thesis
    using e by (simp add: re_sub_from_Some[OF Some[unfolded x] len])
qed

lemma re_sub_from_takeWhile_space:
  assumes sp: "\<And>c t. is_space c \<Longrightarrow> re_match p False (c # t) = None"
      and m: "\<And>s s' g. re_match p False s = Some (s', g) \<Longrightarrow>
            length s' < length s
            \<and> (\<exists>d t. expand r (take (length s - length s') s) g = d # t \<and> \<not> is_space d)"
      and nil: "re_match p False [] = None"
  shows "takeWhile is_space (re_sub_from p r False s) = takeWhile is_space s"
proof (induction s)
  case Nil
  show ?case by (simp add: re_sub_from_Nil_None nil)
next
  case (Cons c cs)
  show ?case
  proof (cases "is_space c")
    case True
    then show ?thesis using Cons by (simp add: re_sub_from_Cons_None sp)
  next
    case False
    from re_sub_from_head_nonspace[OF m False, where cs = cs] obtain d t where
      "re_sub_from p r False (c # cs) = d # t" "\<not> is_space d" by blast
    then show ?thesis using False by simp
  qed
qed

lemma re_sub_from_drop_blank_lines:
  assumes sp: "\<And>c t. is_space c \<Longrightarrow> re_match p False (c # t) = None"
      and m: "\<And>s s' g. re_match p False s = Some (s', g) \<Longrightarrow>
            length s' < length s
            \<and> (\<exists>d t. expand r (take (length s - length s') s) g = d # t \<and> \<not> is_space d)"
      and nil: "re_match p False [] = None"
  shows "re_sub_from p r False (drop_blank_lines s) = drop_blank_lines (re_sub_from p r False s)"
proof (induction s)
  case Nil
  show ?case by (simp add: re_sub_from_Nil_None nil)
next
  case (Cons c cs)
  note tw = re_sub_from_takeWhile_space[OF sp m nil]
  show ?case
  proof (cases "is_space c")
    case True
    then have sub: "re_sub_from p r False (c # cs) = c # re_sub_from p r False cs"
      by (simp add: re_sub_from_Cons_None sp)
    show ?thesis
      using True Cons.IH by (simp add: sub tw)
  next
    case False
    from re_sub_from_head_nonspace[OF m False, where cs = cs] obtain d t where
      dt: "re_sub_from p r False (c # cs) = d # t" "\<not> is_space d" by blast
    show ?thesis using False dt by simp
  qed
qed

lemma is_space_not_word: "is_space c \<Longrightarrow> \<not> is_word c"
  by (auto simp: cls_eval)

lemma const_CacheStats_expand:
  assumes "re_match const_CacheStats_pattern False s = Some (s', g)"
  shows "length s' < length s
     \<and> (\<exists>d t. expand (Func const_CacheStats_repl) (take (length s - length s') s) g = d # t
            \<and> \<not> is_space d)"
proof -
  from const_CacheStats_match[OF assms] obtain name body where
    s: "s = ''const '' @ name @ '': CacheStats = {'' @ body @ ''};'' @ s'" by blast
  have s2: "s = (''const '' @ name @ '': CacheStats = {'' @ body @ ''};'') @ s'"
    using s by simp
  have mt: "take (length s - length s') s = ''const '' @ name @ '': CacheStats = {'' @ body @ ''};''"
    by (subst s2, subst s2) (rule take_length_diff)
  have len: "length s' < length s" by (subst s) simp
  have "\<not> is_space CHR ''c''" by (simp add: cls_eval)
  then show ?thesis
    using len by (simp add: mt const_CacheStats_repl_def hd_str_split del: str_split.simps)
qed

lemma inline_CacheStats_expand:
  assumes "re_match inline_CacheStats_pattern False s = Some (s', g)"
  shows "length s' < length s
     \<and> (\<exists>d t. expand (Template [TRef 1, TLit complete_cache_stats])
                 (take (length s - length s') s) g = d # t
            \<and> \<not> is_space d)"
proof -
  from inline_CacheStats_match[OF assms] obtain name body where
    name: "name \<noteq> []" "list_all is_word name"
    and s: "s = name @ '': CacheStats = '' @ ''{'' @ body @ ''}'' @ s'"
    and g: "g = [1 \<mapsto> name @ '': CacheStats = '']" by blast
  have len: "length s' < length s" by (subst s) simp
  obtain x xs where nx: "name = x # xs" using name(1) by (cases name) auto
  then have "\<not> is_space x" using name(2) is_space_not_word by auto
  then show ?thesis using len by (simp add: g nx)
qed

lemma const_CacheStats_space:
  "is_space c \<Longrightarrow> re_match const_CacheStats_pattern False (c # t) = None"
  by (rule const_CacheStats_first_char) (auto simp: cls_eval)

lemma inline_CacheStats_space:
  "is_space c \<Longrightarrow> re_match inline_CacheStats_pattern False (c # t) = None"
  by (rule inline_CacheStats_first_char) (rule is_space_not_word)

lemma replace_CacheStats_objects_drop_blank_lines:
  "replace_CacheStats_objects (drop_blank_lines s) = drop_blank_lines (replace_CacheStats_objects s)"
  unfolding replace_CacheStats_objects_def re_sub_def
  by (rule re_sub_from_drop_blank_lines[OF const_CacheStats_space const_CacheStats_expand
        const_CacheStats_Nil])

lemma fix_inline_CacheStats_objects_drop_blank_lines:
  "fix_inline_CacheStats_objects (drop_blank_lines s)
   = drop_blank_lines (fix_inline_CacheStats_objects s)"
  unfolding fix_inline_CacheStats_objects_def re_sub_def
  by (rule re_sub_from_drop_blank_lines[OF inline_CacheStats_space inline_CacheStats_expand
        inline_CacheStats_Nil])

lemma replace_CacheStats_objects_frequency_line:
  "replace_CacheStats_objects (''frequency: 0.5,\<newline>'' @ rest)
   = ''frequency: 0.5,\<newline>'' @ replace_CacheStats_objects rest"
  by (simp add: replace_CacheStats_objects_def re_sub_def re_sub_from_Cons_None re_match_False
      const_CacheStats_pattern_def seqs_def bt_eval bt_Seq_Plus)

lemma fix_inline_CacheStats_objects_frequency_line:
  "fix_inline_CacheStats_objects (''frequency: 0.5,\<newline>'' @ rest)
   = ''frequency: 0.5,\<newline>'' @ fix_inline_CacheStats_objects rest"
  by (simp add: fix_inline_CacheStats_objects_def re_sub_def re_sub_from_Cons_None re_match_False
      inline_CacheStats_pattern_def seqs_def bt_eval bt_Seq_Plus cls_eval)

lemma frequency_line_match:
  "re_match frequency_pattern False (''frequency: 0.5,\<newline>'' @ y)
   = Some (drop_blank_lines y, Map.empty)"
proof -
  have b: "bt frequency_pattern Map.empty (''frequency: 0.5,\<newline>'' @ y)
      = map (\<lambda>t. (t, Map.empty)) (blank_rests y @ [y])"
    by (simp add: frequency_pattern_def seqs_def bt_eval bt_Seq_Plus bt_Plus_then_Lit
        bt_blank_line cls_eval)
  have "blank_rests y @ [y] \<noteq> []" by simp
  then obtain x xs where x: "blank_rests y @ [y] = x # xs" by (cases "blank_rests y @ [y]") auto
  then have "x = drop_blank_lines y" using hd_blank_rests[of y] by simp
  then show ?thesis by (simp only: re_match_False b x list.map list.case)
qed

lemma remove_frequency_frequency_line:
  "remove_frequency (''frequency: 0.5,\<newline>'' @ y) = remove_frequency (drop_blank_lines y)"
proof -
  have len: "length (drop_blank_lines y) < length (''frequency: 0.5,\<newline>'' @ y)"
    using length_drop_blank_lines[of y] by simp
  show ?thesis
    unfolding remove_frequency_def re_sub_def
    by (simp only: re_sub_from_Some[OF frequency_line_match len]) simp
qed

text \<open>
  C6, as stated: for the line \<open>frequency: 0.5,\<close> with its newline, followed by
  other content, the output is that content with nothing removed beyond the line and its
  newline. It fails where the content starts with a blank line: the greedy \<open>\s*\<close>
  in front of the final newline of the pattern takes the blank line as well.
\<close>

theorem C6_blank_line_counterexample:
  "fix_cache_stats_rules (''frequency: 0.5,\<newline>'' @ ''\<newline>foo'') = ''foo''
   \<and> fix_cache_stats_rules ''\<newline>foo'' = ''\<newline>foo''
   \<and> ''foo'' \<noteq> ''\<newline>foo''"
  by code_simp

text \<open>
  C6, amended: for the line \<open>frequency: 0.5,\<close> with its newline, followed by any
  other content, the output of \<open>fix_cache_stats.py\<close>'s substitutions is their output
  on that content without its leading blank lines: the line goes with its newline, and
  so do the whitespace-only lines right behind it.
\<close>

theorem C6_frequency_line_removed:
  "fix_cache_stats_rules (''frequency: 0.5,\<newline>'' @ rest)
   = fix_cache_stats_rules (drop_blank_lines rest)"
  unfolding fix_cache_stats_rules_def
  by (simp only: replace_CacheStats_objects_frequency_line
      fix_inline_CacheStats_objects_frequency_line remove_frequency_frequency_line
      replace_CacheStats_objects_drop_blank_lines fix_inline_CacheStats_objects_drop_blank_lines)

theorem C6_frequency_line_removed_witness:
  "fix_cache_stats_rules ''frequency: 0.5,\<newline>  count: 3,\<newline>'' = ''  count: 3,\<newline>''"
proof -
  have d: "drop_blank_lines ''  count: 3,\<newline>'' = ''  count: 3,\<newline>''"
    by (simp add: cls_eval)
  have r: "fix_cache_stats_rules ''  count: 3,\<newline>'' = ''  count: 3,\<newline>''"
    by code_simp
  show ?thesis
    using C6_frequency_line_removed [of "''  count: 3,\<newline>''"] d r by simp
qed

section \<open>Determinism\<close>

text \<open>
  C8: what a script writes is a function of the text it read and of nothing else. Two
  runs in worlds that agree on the file at the script's path (and may differ in every
  other file and in what was printed before) both finish and leave the same file there:
  the file read, with the script's substitutions applied to its text.
\<close>

theorem C8_output_depends_on_file_only:
  assumes "files w1 test_file = Some f" "files w2 test_file = Some f" "readable f" "writable f"
  shows "(\<exists>w1' w2'. fix_comparison_tests w1 = Finished w1' \<and> fix_comparison_tests w2 = Finished w2'
            \<and> files w1' test_file = files w2' test_file
            \<and> files w1' test_file
                = Some (f\<lparr>data := fix_comparison_tests_rules (universal_newlines (data f))\<rparr>))
       \<and> (\<exists>w1' w2'. fix_cache_stats w1 = Finished w1' \<and> fix_cache_stats w2 = Finished w2'
            \<and> files w1' test_file = files w2' test_file
            \<and> files w1' test_file
                = Some (f\<lparr>data := fix_cache_stats_rules (universal_newlines (data f))\<rparr>))"
  using assms
  by (simp add: fix_comparison_tests_def fix_cache_stats_def read_text_def write_text_def print_def)

theorem C8_output_depends_on_file_only_witness:
  "(case fix_comparison_tests
      \<lparr>files = [test_file \<mapsto> \<lparr>data = ''},\<newline>}'', readable = True, writable = True\<rparr>], stdout = []\<rparr>
    of Finished a \<Rightarrow> files a test_file | Raised e a \<Rightarrow> None)
   = Some \<lparr>data = ''}\<newline>      }'', readable = True, writable = True\<rparr>
   \<and> (case fix_comparison_tests
      \<lparr>files = [test_file \<mapsto> \<lparr>data = ''},\<newline>}'', readable = True, writable = True\<rparr>,
                ''other.ts'' \<mapsto> \<lparr>data = ''x'', readable = True, writable = True\<rparr>],
       stdout = [''earlier output'']\<rparr>
    of Finished a \<Rightarrow> files a test_file | Raised e a \<Rightarrow> None)
   = Some \<lparr>data = ''}\<newline>      }'', readable = True, writable = True\<rparr>"
proof -
  have r: "fix_comparison_tests_rules ''},\<newline>}'' = ''}\<newline>      }''"
    by code_simp
  have n: "test_file \<noteq> ''other.ts''" by (simp add: test_file_def)
  show ?thesis
    using r n C8_output_depends_on_file_only [of "\<lparr>files = [test_file \<mapsto> \<lparr>data = ''},\<newline>}'', readable = True, writable = True\<rparr>], stdout = []\<rparr>"
        "\<lparr>data = ''},\<newline>}'', readable = True, writable = True\<rparr>"
        "\<lparr>files = [test_file \<mapsto> \<lparr>data = ''},\<newline>}'', readable = True, writable = True\<rparr>,
                ''other.ts'' \<mapsto> \<lparr>data = ''x'', readable = True, writable = True\<rparr>],
       stdout = [''earlier output'']\<rparr>"]
    by auto
qed

section \<open>Errors of \<open>open\<close>\<close>

text \<open>
  C9: either script ends with the error of \<open>open\<close> when the path does not exist
  (\<open>FileNotFoundError\<close>), when the file may not be read, and when it may be read but
  not written (\<open>PermissionError\<close>). Nothing catches the error, and the world the run
  ends in is the world it started in: the file on disk is unchanged.
\<close>

theorem C9_open_errors_propagate:
  assumes "run = fix_comparison_tests \<or> run = fix_cache_stats"
  shows "(files w test_file = None \<longrightarrow> run w = Raised FileNotFoundError w)
       \<and> (\<forall>f. files w test_file = Some f \<and> \<not> readable f \<longrightarrow> run w = Raised PermissionError w)
       \<and> (\<forall>f. files w test_file = Some f \<and> readable f \<and> \<not> writable f \<longrightarrow>
              run w = Raised PermissionError w)"
  using assms
  by (auto simp: fix_comparison_tests_def fix_cache_stats_def read_text_def write_text_def)

theorem C9_open_errors_propagate_witness:
  "fix_comparison_tests \<lparr>files = Map.empty, stdout = []\<rparr>
     = Raised FileNotFoundError \<lparr>files = Map.empty, stdout = []\<rparr>
   \<and> fix_cache_stats
       \<lparr>files = [test_file \<mapsto> \<lparr>data = ''a'', readable = False, writable = True\<rparr>], stdout = []\<rparr>
     = Raised PermissionError
       \<lparr>files = [test_file \<mapsto> \<lparr>data = ''a'', readable = False, writable = True\<rparr>], stdout = []\<rparr>
   \<and> fix_cache_stats
       \<lparr>files = [test_file \<mapsto> \<lparr>data = ''a'', readable = True, writable = False\<rparr>], stdout = []\<rparr>
     = Raised PermissionError
       \<lparr>files = [test_file \<mapsto> \<lparr>data = ''a'', readable = True, writable = False\<rparr>], stdout = []\<rparr>"
  using C9_open_errors_propagate [of fix_comparison_tests "\<lparr>files = Map.empty, stdout = []\<rparr>"]
    C9_open_errors_propagate [of fix_cache_stats
      "\<lparr>files = [test_file \<mapsto> \<lparr>data = ''a'', readable = False, writable = True\<rparr>], stdout = []\<rparr>"]
    C9_open_errors_propagate [of fix_cache_stats
      "\<lparr>files = [test_file \<mapsto> \<lparr>data = ''a'', readable = True, writable = False\<rparr>], stdout = []\<rparr>"]
  by simp


end
